theory Spec2Isabelle
  imports Complex_Main "HOL-Library.Word"
begin

unbundle bit_operations_syntax

section \<open>The program state: Matrix objects and their element arrays\<close>

text \<open>
  The embedding follows \<^verbatim>\<open>hw3/Sean20405/matrix.cpp\<close>. A \<^verbatim>\<open>Matrix\<close> object has the
  members \<^verbatim>\<open>nrow\<close>, \<^verbatim>\<open>ncol\<close> and the raw owning pointer \<^verbatim>\<open>data\<close>. Objects live in an
  object store (a reference is what \<^verbatim>\<open>this\<close> and \<^verbatim>\<open>&other\<close> compare), the arrays made by
  \<^verbatim>\<open>new double[n]\<close> live in a separate store of cells, and \<^verbatim>\<open>nullptr\<close> is \<open>None\<close>.
  \<^verbatim>\<open>size_t\<close> is 64 bits wide. Its values are natural numbers, and the result of every
  \<^verbatim>\<open>size_t\<close> operation of the source that can leave the type (a product, a sum, \<^verbatim>\<open>+=\<close>)
  is reduced modulo \<open>2 ^ 64\<close>, as unsigned arithmetic wraps around. \<^verbatim>\<open>new\<close> is taken to
  succeed.

  The element type is a parameter. Zero (what \<^verbatim>\<open>memset\<close> writes), \<open>+\<close> and \<open>*\<close> are the
  operations of the element type, without any law assumed in the definitions, so that
  the order of every accumulation is the order of the source.
\<close>

type_synonym addr = nat
type_synonym ref = nat

text \<open>The value that a \<^verbatim>\<open>size_t\<close> holds when the mathematical result is \<open>x\<close>.\<close>

definition size_t :: "nat \<Rightarrow> nat" where
  "size_t x = x mod 2 ^ 64"

record Matrix =
  nrow :: nat
  ncol :: nat
  data :: "addr option"

record 'a state =
  objs :: "ref \<Rightarrow> Matrix option"
  cells :: "addr \<Rightarrow> 'a list option"
  brk :: addr

text \<open>
  Both \<^verbatim>\<open>throw std::out_of_range(...)\<close> sites of the source are errors that carry the state
  in which the exception leaves the function: \<open>ShapeMismatch\<close> is "number of elements
  mismatch", \<open>DimensionMismatch\<close> is "the number of first matrix column differs from that
  of second matrix row". \<open>UndefinedBehaviour\<close> marks an access outside an array, through
  \<^verbatim>\<open>nullptr\<close> or to a dead object; no state is left to speak of after it.
\<close>

datatype 's error = ShapeMismatch 's | DimensionMismatch 's | UndefinedBehaviour

definition init_state :: "'a state" where
  "init_state = \<lparr>objs = (\<lambda>_. None), cells = (\<lambda>_. None), brk = 0\<rparr>"

text \<open>\<^verbatim>\<open>p[idx]\<close> read and written, for a pointer \<open>p\<close> to the first element of an array.\<close>

definition load :: "'a state \<Rightarrow> addr option \<Rightarrow> nat \<Rightarrow> 'a state error + 'a" where
  "load s p idx =
     (case p of
        None \<Rightarrow> Inl UndefinedBehaviour
      | Some a \<Rightarrow>
          (case cells s a of
             None \<Rightarrow> Inl UndefinedBehaviour
           | Some buf \<Rightarrow> if idx < length buf then Inr (buf ! idx) else Inl UndefinedBehaviour))"

definition store :: "'a state \<Rightarrow> addr option \<Rightarrow> nat \<Rightarrow> 'a \<Rightarrow> 'a state error + 'a state" where
  "store s p idx v =
     (case p of
        None \<Rightarrow> Inl UndefinedBehaviour
      | Some a \<Rightarrow>
          (case cells s a of
             None \<Rightarrow> Inl UndefinedBehaviour
           | Some buf \<Rightarrow>
               if idx < length buf then Inr (s\<lparr>cells := (cells s)(a \<mapsto> buf[idx := v])\<rparr>)
               else Inl UndefinedBehaviour))"

text \<open>
  \<^verbatim>\<open>data = new double[nelement]; memset(data, 0, sizeof(double) * nelement);\<close> as one
  step: a fresh address, never handed out before, holding \<open>nelement\<close> zeros.
\<close>

definition new_zeroed :: "'a::zero state \<Rightarrow> nat \<Rightarrow> addr \<times> 'a state" where
  "new_zeroed s nelement =
     (brk s, s\<lparr>cells := (cells s)(brk s \<mapsto> replicate nelement 0), brk := Suc (brk s)\<rparr>)"

text \<open>\<^verbatim>\<open>delete[] p\<close> for a non-null \<open>p\<close>.\<close>

definition delete_arr :: "'a state \<Rightarrow> addr \<Rightarrow> 'a state error + 'a state" where
  "delete_arr s a =
     (if cells s a = None then Inl UndefinedBehaviour
      else Inr (s\<lparr>cells := (cells s)(a := None)\<rparr>))"

section \<open>Loops\<close>

text \<open>
  \<^verbatim>\<open>for (size_t i = lo; i < n; ++i) body\<close>. The body either continues with a new loop
  state (\<open>Inr\<close>) or leaves the loop abruptly (\<open>Inl\<close>: an error, or a \<^verbatim>\<open>return\<close> from
  inside the loop). The counter is incremented only while it is below the bound \<open>n\<close>,
  itself a \<^verbatim>\<open>size_t\<close> value, so \<^verbatim>\<open>++i\<close> never wraps around.
\<close>

function for_loop :: "nat \<Rightarrow> nat \<Rightarrow> (nat \<Rightarrow> 'st \<Rightarrow> 'e + 'st) \<Rightarrow> 'st \<Rightarrow> 'e + 'st" where
  "for_loop i n body s =
     (if i < n then
        (case body i s of
           Inl e \<Rightarrow> Inl e
         | Inr s' \<Rightarrow> for_loop (Suc i) n body s')
      else Inr s)"
  by pat_completeness auto
termination
  by (relation "measure (\<lambda>(i, n, body, s). n - i)") auto

declare for_loop.simps [simp del]

text \<open>
  \<^verbatim>\<open>for (size_t t = lo; t < n; t += step) body\<close>. The sum \<^verbatim>\<open>t += step\<close> wraps around.
  With \<open>step = 0\<close> the counter never moves, and a counter that wraps around can stay
  below the bound for ever, so the loop need not return: \<open>None\<close> is "does not return".
\<close>

partial_function (option) for_step ::
  "nat \<Rightarrow> nat \<Rightarrow> nat \<Rightarrow> (nat \<Rightarrow> 'st \<Rightarrow> ('e + 'st) option) \<Rightarrow> 'st \<Rightarrow> ('e + 'st) option" where
  "for_step t n step body s =
     (if t < n then
        (case body t s of
           None \<Rightarrow> None
         | Some (Inl e) \<Rightarrow> Some (Inl e)
         | Some (Inr s') \<Rightarrow> for_step (size_t (t + step)) n step body s')
      else Some (Inr s))"

declare for_step.simps [code]

section \<open>class Matrix\<close>

text \<open>
  Modelled from the spec: the class declaration (\<^verbatim>\<open>matrix.hpp\<close> of the same directory) is
  not among the sources. The member \<^verbatim>\<open>data\<close> of an object whose constructor body starts
  is taken to be \<^verbatim>\<open>nullptr\<close> (a default member initialiser), the spec's "no backing
  storage" of a matrix that holds nothing yet; every constructor of the source tests
  \<^verbatim>\<open>if (data)\<close> in \<^verbatim>\<open>reset_buffer\<close> before it has assigned the member.
\<close>

definition Matrix_data_default :: "addr option" where
  "Matrix_data_default = None"

text \<open>\<^verbatim>\<open>void Matrix::reset_buffer(size_t nrow, size_t ncol)\<close>\<close>

definition reset_buffer :: "'a::zero state \<Rightarrow> ref \<Rightarrow> nat \<Rightarrow> nat \<Rightarrow> 'a state error + 'a state" where
  "reset_buffer s this nrow' ncol' =
     (case objs s this of
        None \<Rightarrow> Inl UndefinedBehaviour
      | Some m \<Rightarrow>
          (case (case data m of Some a \<Rightarrow> delete_arr s a | None \<Rightarrow> Inr s) of
             Inl e \<Rightarrow> Inl e
           | Inr s1 \<Rightarrow>
               let nelement = size_t (nrow' * ncol');
                   (p, s2) = (if nelement \<noteq> 0
                              then (let (a, s') = new_zeroed s1 nelement in (Some a, s'))
                              else (None, s1))
               in Inr (s2\<lparr>objs := (objs s2)(this \<mapsto> \<lparr>nrow = nrow', ncol = ncol', data = p\<rparr>)\<rparr>)))"

text \<open>\<^verbatim>\<open>Matrix::Matrix(size_t num_row, size_t num_col)\<close>, constructing the object at \<open>this\<close>.\<close>

definition Matrix_ctor :: "'a::zero state \<Rightarrow> ref \<Rightarrow> nat \<Rightarrow> nat \<Rightarrow> 'a state error + 'a state" where
  "Matrix_ctor s this num_row num_col =
     reset_buffer
       (s\<lparr>objs := (objs s)(this \<mapsto> \<lparr>nrow = num_row, ncol = num_col, data = Matrix_data_default\<rparr>)\<rparr>)
       this num_row num_col"

text \<open>
  \<^verbatim>\<open>double Matrix::operator() (size_t row, size_t col) const\<close> and an assignment through
  the reference that the non-const \<^verbatim>\<open>operator()\<close> returns: \<^verbatim>\<open>data[ncol * row + col]\<close>.
\<close>

definition Matrix_at :: "'a state \<Rightarrow> ref \<Rightarrow> nat \<Rightarrow> nat \<Rightarrow> 'a state error + 'a" where
  "Matrix_at s this row col =
     (case objs s this of
        None \<Rightarrow> Inl UndefinedBehaviour
      | Some m \<Rightarrow> load s (data m) (size_t (size_t (ncol m * row) + col)))"

definition Matrix_put :: "'a state \<Rightarrow> ref \<Rightarrow> nat \<Rightarrow> nat \<Rightarrow> 'a \<Rightarrow> 'a state error + 'a state" where
  "Matrix_put s this row col v =
     (case objs s this of
        None \<Rightarrow> Inl UndefinedBehaviour
      | Some m \<Rightarrow> store s (data m) (size_t (size_t (ncol m * row) + col)) v)"

text \<open>
  \<^verbatim>\<open>Matrix & Matrix::operator=(std::vector<double> const & vec)\<close>. The loop state is the
  counter \<open>k\<close> with the program state; \<^verbatim>\<open>vec[k]\<close> is unchecked in the source. The loop
  bounds are the members \<^verbatim>\<open>nrow\<close> and \<^verbatim>\<open>ncol\<close>, which the loop does not change.
\<close>

definition Matrix_assign_vec :: "'a state \<Rightarrow> ref \<Rightarrow> 'a list \<Rightarrow> 'a state error + 'a state" where
  "Matrix_assign_vec s this vec =
     (case objs s this of
        None \<Rightarrow> Inl UndefinedBehaviour
      | Some m \<Rightarrow>
          if size_t (nrow m * ncol m) \<noteq> length vec then Inl (ShapeMismatch s)
          else
            (case for_loop 0 (nrow m) (\<lambda>i.
                    for_loop 0 (ncol m) (\<lambda>j (k, s).
                      if k < length vec then
                        (case Matrix_put s this i j (vec ! k) of
                           Inl e \<Rightarrow> Inl e
                         | Inr s' \<Rightarrow> Inr (size_t (Suc k), s'))
                      else Inl UndefinedBehaviour)) (0, s) of
               Inl e \<Rightarrow> Inl e
             | Inr (k, s') \<Rightarrow> Inr s'))"

text \<open>
  \<^verbatim>\<open>Matrix::Matrix(size_t num_row, size_t num_col, std::vector<double> const & vec)\<close>.
  When the assignment throws, the exception leaves the constructor: the object at
  \<open>this\<close> never comes to exist and its destructor does not run, so the array that
  \<^verbatim>\<open>reset_buffer\<close> allocated stays in the store.
\<close>

definition Matrix_ctor_vec ::
  "'a::zero state \<Rightarrow> ref \<Rightarrow> nat \<Rightarrow> nat \<Rightarrow> 'a list \<Rightarrow> 'a state error + 'a state" where
  "Matrix_ctor_vec s this num_row num_col vec =
     (case reset_buffer
             (s\<lparr>objs := (objs s)(this \<mapsto>
                  \<lparr>nrow = num_row, ncol = num_col, data = Matrix_data_default\<rparr>)\<rparr>)
             this num_row num_col of
        Inl e \<Rightarrow> Inl e
      | Inr s1 \<Rightarrow>
          (case Matrix_assign_vec s1 this vec of
             Inl (ShapeMismatch s2) \<Rightarrow> Inl (ShapeMismatch (s2\<lparr>objs := (objs s2)(this := None)\<rparr>))
           | Inl e \<Rightarrow> Inl e
           | Inr s2 \<Rightarrow> Inr s2))"

text \<open>
  \<^verbatim>\<open>bool Matrix::operator==(const Matrix &m) const\<close>. The comparison \<^verbatim>\<open>!=\<close> of two
  elements is the parameter \<open>ne\<close>. \<open>Inl (Inr False)\<close> inside the loops is the
  \<^verbatim>\<open>return false\<close> of the source, which leaves both loops at once.
\<close>

definition Matrix_eq :: "('a \<Rightarrow> 'a \<Rightarrow> bool) \<Rightarrow> 'a state \<Rightarrow> ref \<Rightarrow> ref \<Rightarrow> 'a state error + bool" where
  "Matrix_eq ne s this m =
     (case (objs s this, objs s m) of
        (Some mt, Some mo) \<Rightarrow>
          if nrow mt \<noteq> nrow mo \<or> ncol mt \<noteq> ncol mo then Inr False
          else
            (case for_loop 0 (nrow mt) (\<lambda>i.
                    for_loop 0 (ncol mt) (\<lambda>j (u :: unit).
                      (case Matrix_at s this i j of
                         Inl e \<Rightarrow> Inl (Inl e)
                       | Inr a \<Rightarrow>
                           (case Matrix_at s m i j of
                              Inl e \<Rightarrow> Inl (Inl e)
                            | Inr b \<Rightarrow> if ne a b then Inl (Inr False) else Inr u)))) () of
               Inl (Inl e) \<Rightarrow> Inl e
             | Inl (Inr b) \<Rightarrow> Inr b
             | Inr u \<Rightarrow> Inr True)
      | _ \<Rightarrow> Inl UndefinedBehaviour)"

text \<open>The element copy loop shared by the copy constructor and the copy assignment.\<close>

definition copy_elements :: "'a state \<Rightarrow> ref \<Rightarrow> ref \<Rightarrow> 'a state error + 'a state" where
  "copy_elements s this other =
     (case objs s this of
        None \<Rightarrow> Inl UndefinedBehaviour
      | Some mt \<Rightarrow>
          for_loop 0 (nrow mt) (\<lambda>i.
            for_loop 0 (ncol mt) (\<lambda>j s.
              (case Matrix_at s other i j of
                 Inl e \<Rightarrow> Inl e
               | Inr v \<Rightarrow> Matrix_put s this i j v))) s)"

text \<open>\<^verbatim>\<open>Matrix::Matrix(Matrix const & other)\<close>\<close>

definition Matrix_copy_ctor :: "'a::zero state \<Rightarrow> ref \<Rightarrow> ref \<Rightarrow> 'a state error + 'a state" where
  "Matrix_copy_ctor s this other =
     (case objs s other of
        None \<Rightarrow> Inl UndefinedBehaviour
      | Some mo \<Rightarrow>
          (case reset_buffer
                  (s\<lparr>objs := (objs s)(this \<mapsto>
                       \<lparr>nrow = nrow mo, ncol = ncol mo, data = Matrix_data_default\<rparr>)\<rparr>)
                  this (nrow mo) (ncol mo) of
             Inl e \<Rightarrow> Inl e
           | Inr s1 \<Rightarrow> copy_elements s1 this other))"

text \<open>\<^verbatim>\<open>Matrix & Matrix::operator=(Matrix const & other)\<close>\<close>

definition Matrix_copy_assign :: "'a::zero state \<Rightarrow> ref \<Rightarrow> ref \<Rightarrow> 'a state error + 'a state" where
  "Matrix_copy_assign s this other =
     (if this = other then Inr s
      else
        (case (objs s this, objs s other) of
           (Some mt, Some mo) \<Rightarrow>
             (case (if nrow mt \<noteq> nrow mo \<or> ncol mt \<noteq> ncol mo
                    then reset_buffer s this (nrow mo) (ncol mo) else Inr s) of
                Inl e \<Rightarrow> Inl e
              | Inr s1 \<Rightarrow> copy_elements s1 this other)
         | _ \<Rightarrow> Inl UndefinedBehaviour))"

text \<open>\<^verbatim>\<open>std::swap\<close> on one member of two live objects.\<close>

definition swap_nrow :: "'a state \<Rightarrow> ref \<Rightarrow> ref \<Rightarrow> 'a state error + 'a state" where
  "swap_nrow s a b =
     (case (objs s a, objs s b) of
        (Some x, Some y) \<Rightarrow>
          Inr (s\<lparr>objs := (objs s)(a \<mapsto> x\<lparr>nrow := nrow y\<rparr>, b \<mapsto> y\<lparr>nrow := nrow x\<rparr>)\<rparr>)
      | _ \<Rightarrow> Inl UndefinedBehaviour)"

definition swap_ncol :: "'a state \<Rightarrow> ref \<Rightarrow> ref \<Rightarrow> 'a state error + 'a state" where
  "swap_ncol s a b =
     (case (objs s a, objs s b) of
        (Some x, Some y) \<Rightarrow>
          Inr (s\<lparr>objs := (objs s)(a \<mapsto> x\<lparr>ncol := ncol y\<rparr>, b \<mapsto> y\<lparr>ncol := ncol x\<rparr>)\<rparr>)
      | _ \<Rightarrow> Inl UndefinedBehaviour)"

definition swap_data :: "'a state \<Rightarrow> ref \<Rightarrow> ref \<Rightarrow> 'a state error + 'a state" where
  "swap_data s a b =
     (case (objs s a, objs s b) of
        (Some x, Some y) \<Rightarrow>
          Inr (s\<lparr>objs := (objs s)(a \<mapsto> x\<lparr>data := data y\<rparr>, b \<mapsto> y\<lparr>data := data x\<rparr>)\<rparr>)
      | _ \<Rightarrow> Inl UndefinedBehaviour)"

definition swap_members :: "'a state \<Rightarrow> ref \<Rightarrow> ref \<Rightarrow> 'a state error + 'a state" where
  "swap_members s this other =
     (case swap_nrow s this other of
        Inl e \<Rightarrow> Inl e
      | Inr s1 \<Rightarrow>
          (case swap_ncol s1 this other of
             Inl e \<Rightarrow> Inl e
           | Inr s2 \<Rightarrow> swap_data s2 this other))"

text \<open>\<^verbatim>\<open>Matrix::Matrix(Matrix && other)\<close>\<close>

definition Matrix_move_ctor :: "'a::zero state \<Rightarrow> ref \<Rightarrow> ref \<Rightarrow> 'a state error + 'a state" where
  "Matrix_move_ctor s this other =
     (case objs s other of
        None \<Rightarrow> Inl UndefinedBehaviour
      | Some mo \<Rightarrow>
          (case reset_buffer
                  (s\<lparr>objs := (objs s)(this \<mapsto>
                       \<lparr>nrow = nrow mo, ncol = ncol mo, data = Matrix_data_default\<rparr>)\<rparr>)
                  this 0 0 of
             Inl e \<Rightarrow> Inl e
           | Inr s1 \<Rightarrow> swap_members s1 this other))"

text \<open>\<^verbatim>\<open>Matrix & Matrix::operator=(Matrix && other)\<close>\<close>

definition Matrix_move_assign :: "'a state \<Rightarrow> ref \<Rightarrow> ref \<Rightarrow> 'a state error + 'a state" where
  "Matrix_move_assign s this other =
     (if this = other then Inr s else swap_members s this other)"

text \<open>\<^verbatim>\<open>Matrix::~Matrix()\<close>, after which the object is gone.\<close>

definition Matrix_dtor :: "'a::zero state \<Rightarrow> ref \<Rightarrow> 'a state error + 'a state" where
  "Matrix_dtor s this =
     (case reset_buffer s this 0 0 of
        Inl e \<Rightarrow> Inl e
      | Inr s1 \<Rightarrow> Inr (s1\<lparr>objs := (objs s1)(this := None)\<rparr>))"

text \<open>
  \<^verbatim>\<open>std::vector<double> Matrix::to_vector() const\<close>: the range
  \<^verbatim>\<open>[data, data + nrow * ncol)\<close> copied out, the product being a \<^verbatim>\<open>size_t\<close>.
\<close>

definition to_vector :: "'a state \<Rightarrow> ref \<Rightarrow> 'a state error + 'a list" where
  "to_vector s this =
     (case objs s this of
        None \<Rightarrow> Inl UndefinedBehaviour
      | Some m \<Rightarrow>
          (let nelement = size_t (nrow m * ncol m) in
           (case data m of
              None \<Rightarrow> if nelement = 0 then Inr [] else Inl UndefinedBehaviour
            | Some a \<Rightarrow>
                (case cells s a of
                   None \<Rightarrow> Inl UndefinedBehaviour
                 | Some buf \<Rightarrow>
                     if nelement \<le> length buf then Inr (take nelement buf)
                     else Inl UndefinedBehaviour))))"

section \<open>The two multiplications\<close>

text \<open>
  \<^verbatim>\<open>Matrix multiply_naive(Matrix const & mat1, Matrix const & mat2)\<close>. The local \<^verbatim>\<open>ret\<close>
  is constructed at the reference \<open>ret\<close>, the place of the returned object, which the
  caller provides and which is neither \<open>mat1\<close> nor \<open>mat2\<close>. The loop bounds are members
  of \<open>mat1\<close> and \<open>mat2\<close>, which the loops do not change.
\<close>

definition multiply_naive ::
  "'a::{zero,plus,times} state \<Rightarrow> ref \<Rightarrow> ref \<Rightarrow> ref \<Rightarrow> 'a state error + 'a state" where
  "multiply_naive s ret mat1 mat2 =
     (case (objs s mat1, objs s mat2) of
        (Some m1, Some m2) \<Rightarrow>
          if ncol m1 \<noteq> nrow m2 then Inl (DimensionMismatch s)
          else
            (case Matrix_ctor s ret (nrow m1) (ncol m2) of
               Inl e \<Rightarrow> Inl e
             | Inr s1 \<Rightarrow>
                 for_loop 0 (nrow m1) (\<lambda>i.
                   for_loop 0 (ncol m2) (\<lambda>k.
                     for_loop 0 (ncol m1) (\<lambda>j s.
                       (case Matrix_at s mat1 i j of
                          Inl e \<Rightarrow> Inl e
                        | Inr a \<Rightarrow>
                            (case Matrix_at s mat2 j k of
                               Inl e \<Rightarrow> Inl e
                             | Inr b \<Rightarrow>
                                 (case Matrix_at s ret i k of
                                    Inl e \<Rightarrow> Inl e
                                  | Inr c \<Rightarrow> Matrix_put s ret i k (c + a * b))))))) s1)
      | _ \<Rightarrow> Inl UndefinedBehaviour)"

text \<open>
  The three innermost loops of \<^verbatim>\<open>multiply_tile\<close>, over one tile: \<open>i\<close> from \<open>tile_i\<close>,
  \<open>k\<close> from \<open>tile_k\<close>, \<open>j\<close> from \<open>tile_j\<close>, with \<^verbatim>\<open>tmp = mat1(i, k)\<close> and
  \<^verbatim>\<open>ret(i, j) += tmp * mat2(k, j)\<close>.
\<close>

definition tile_body ::
  "ref \<Rightarrow> ref \<Rightarrow> ref \<Rightarrow> nat \<Rightarrow> nat \<Rightarrow> nat \<Rightarrow> nat \<Rightarrow> nat \<Rightarrow> nat \<Rightarrow>
     'a::{zero,plus,times} state \<Rightarrow> 'a state error + 'a state" where
  "tile_body ret mat1 mat2 tile_i tile_i_end tile_k tile_k_end tile_j tile_j_end s =
     for_loop tile_i tile_i_end (\<lambda>i.
       for_loop tile_k tile_k_end (\<lambda>k s.
         (case Matrix_at s mat1 i k of
            Inl e \<Rightarrow> Inl e
          | Inr tmp \<Rightarrow>
              for_loop tile_j tile_j_end (\<lambda>j s.
                (case Matrix_at s mat2 k j of
                   Inl e \<Rightarrow> Inl e
                 | Inr b \<Rightarrow>
                     (case Matrix_at s ret i j of
                        Inl e \<Rightarrow> Inl e
                      | Inr c \<Rightarrow> Matrix_put s ret i j (c + tmp * b)))) s))) s"

text \<open>
  \<^verbatim>\<open>Matrix multiply_tile(Matrix const & mat1, Matrix const & mat2, size_t tile_size)\<close>.
  \<open>None\<close> is a call that does not return. The sums \<^verbatim>\<open>tile_i + tile_size\<close> and the tile
  counters are \<^verbatim>\<open>size_t\<close> values and wrap around.
\<close>

definition multiply_tile ::
  "'a::{zero,plus,times} state \<Rightarrow> ref \<Rightarrow> ref \<Rightarrow> ref \<Rightarrow> nat \<Rightarrow> ('a state error + 'a state) option" where
  "multiply_tile s ret mat1 mat2 tile_size =
     (case (objs s mat1, objs s mat2) of
        (Some m1, Some m2) \<Rightarrow>
          if ncol m1 \<noteq> nrow m2 then Some (Inl (DimensionMismatch s))
          else
            (let mat1_nrow = nrow m1; mat1_ncol = ncol m1; mat2_ncol = ncol m2 in
             (case Matrix_ctor s ret mat1_nrow mat2_ncol of
                Inl e \<Rightarrow> Some (Inl e)
              | Inr s1 \<Rightarrow>
                  for_step 0 mat1_nrow tile_size (\<lambda>tile_i.
                    for_step 0 mat2_ncol tile_size (\<lambda>tile_k.
                      for_step 0 mat1_ncol tile_size (\<lambda>tile_j s.
                        (let tile_i_end = min (size_t (tile_i + tile_size)) mat1_nrow;
                             tile_k_end = min (size_t (tile_k + tile_size)) mat2_ncol;
                             tile_j_end = min (size_t (tile_j + tile_size)) mat1_ncol
                         in Some (tile_body ret mat1 mat2 tile_i tile_i_end
                                    tile_k tile_k_end tile_j tile_j_end s))))) s1))
      | _ \<Rightarrow> Some (Inl UndefinedBehaviour))"

section \<open>Comparison of doubles\<close>

text \<open>
  A \<^verbatim>\<open>double\<close> as its IEEE 754 binary64 bit pattern: sign (bit 63), exponent (bits
  62 to 52), fraction (bits 51 to 0). The C++ comparison \<^verbatim>\<open>a != b\<close> of two doubles is
  true when either is a NaN; otherwise it compares the values, and two patterns that
  are not NaN denote the same value when they are the same pattern or are both zeros
  (\<open>+0.0\<close> and \<open>-0.0\<close>).
\<close>

type_synonym binary64 = "64 word"

definition is_nan :: "binary64 \<Rightarrow> bool" where
  "is_nan w \<longleftrightarrow> drop_bit 52 w AND 0x7FF = 0x7FF \<and> w AND 0xFFFFFFFFFFFFF \<noteq> 0"

definition is_zero :: "binary64 \<Rightarrow> bool" where
  "is_zero w \<longleftrightarrow> w = 0 \<or> w = 0x8000000000000000"

definition double_ne :: "binary64 \<Rightarrow> binary64 \<Rightarrow> bool" where
  "double_ne a b \<longleftrightarrow> is_nan a \<or> is_nan b \<or> (a \<noteq> b \<and> \<not> (is_zero a \<and> is_zero b))"

section \<open>Well-formed states\<close>

text \<open>
  The invariant of one Matrix object: it is live, and either holds no element and no
  array (\<^verbatim>\<open>data == nullptr\<close>), or its array is live and holds exactly \<open>nrow * ncol\<close>
  elements.
\<close>

definition valid :: "'a state \<Rightarrow> ref \<Rightarrow> bool" where
  "valid s this =
     (case objs s this of
        None \<Rightarrow> False
      | Some m \<Rightarrow>
          (case data m of
             None \<Rightarrow> nrow m * ncol m = 0
           | Some a \<Rightarrow>
               nrow m * ncol m \<noteq> 0 \<and>
               (case cells s a of None \<Rightarrow> False | Some buf \<Rightarrow> length buf = nrow m * ncol m)))"

text \<open>Every live array lies below the allocation mark, so a new array is a new address.\<close>

definition wf_heap :: "'a state \<Rightarrow> bool" where
  "wf_heap s \<longleftrightarrow> dom (cells s) \<subseteq> {..<brk s}"

text \<open>Two objects own different arrays (or none).\<close>

definition separate :: "'a state \<Rightarrow> ref \<Rightarrow> ref \<Rightarrow> bool" where
  "separate s a b =
     (case (objs s a, objs s b) of
        (Some x, Some y) \<Rightarrow> data x = None \<or> data x \<noteq> data y
      | _ \<Rightarrow> False)"

text \<open>
  The object at \<open>this\<close> is a valid \<open>r\<close> by \<open>c\<close> matrix whose elements, row by row, are
  \<open>buf\<close>. The elements are those of an array that \<^verbatim>\<open>new double[nelement]\<close> has made, or
  none, so their number is a \<^verbatim>\<open>size_t\<close> value.
\<close>

definition holds :: "'a state \<Rightarrow> ref \<Rightarrow> nat \<Rightarrow> nat \<Rightarrow> 'a list \<Rightarrow> bool" where
  "holds s this r c buf =
     (case objs s this of
        None \<Rightarrow> False
      | Some m \<Rightarrow>
          nrow m = r \<and> ncol m = c \<and> length buf = r * c \<and> r * c < 2 ^ 64 \<and>
          (case data m of
             None \<Rightarrow> buf = []
           | Some a \<Rightarrow> buf \<noteq> [] \<and> cells s a = Some buf))"

section \<open>States and values that the proofs speak of\<close>

text \<open>
  The state after an \<open>r\<close> by \<open>c\<close> matrix has been constructed at \<open>this\<close> with the
  elements \<open>buf\<close>: a new array when there are elements, no array otherwise.
\<close>

definition built :: "'a state \<Rightarrow> ref \<Rightarrow> nat \<Rightarrow> nat \<Rightarrow> 'a list \<Rightarrow> 'a state" where
  "built s this r c buf =
     (if r * c \<noteq> 0
      then s\<lparr>cells := (cells s)(brk s \<mapsto> buf), brk := Suc (brk s),
             objs := (objs s)(this \<mapsto> \<lparr>nrow = r, ncol = c, data = Some (brk s)\<rparr>)\<rparr>
      else s\<lparr>objs := (objs s)(this \<mapsto> \<lparr>nrow = r, ncol = c, data = None\<rparr>)\<rparr>)"

text \<open>The state after \<^verbatim>\<open>delete[]\<close> of the array of the object \<open>m\<close>, if it has one.\<close>

definition release :: "'a state \<Rightarrow> Matrix \<Rightarrow> 'a state" where
  "release s m = (case data m of None \<Rightarrow> s | Some a \<Rightarrow> s\<lparr>cells := (cells s)(a := None)\<rparr>)"

text \<open>
  The value of an element of the result after \<open>n\<close> accumulations into zero, in the
  order of the source: \<open>((0 + f 0) + f 1) + \<dots> + f (n - 1)\<close>.
\<close>

primrec accum :: "(nat \<Rightarrow> 'a) \<Rightarrow> nat \<Rightarrow> 'a::{zero,plus}" where
  "accum f 0 = 0"
| "accum f (Suc n) = accum f n + f n"

text \<open>The elements of the product, row by row.\<close>

definition product :: "nat \<Rightarrow> nat \<Rightarrow> nat \<Rightarrow> 'a list \<Rightarrow> 'a list \<Rightarrow> 'a::{zero,plus,times} list" where
  "product m n p bufA bufB =
     map (\<lambda>idx. accum (\<lambda>j. bufA ! (n * (idx div p) + j) * bufB ! (p * j + idx mod p)) n)
       [0..<m * p]"

text \<open>
  The array of the result when \<open>c x y\<close> of the \<open>n\<close> products have been accumulated
  into the element \<open>(x, y)\<close>, in the order \<open>k = 0, 1, \<dots>\<close>.
\<close>

definition partial_product ::
  "nat \<Rightarrow> nat \<Rightarrow> 'a list \<Rightarrow> 'a list \<Rightarrow> (nat \<Rightarrow> nat \<Rightarrow> nat) \<Rightarrow> 'a::{zero,plus,times} list" where
  "partial_product m n bufA bufB c =
     map (\<lambda>idx. accum (\<lambda>k. bufA ! (n * (idx div n) + k) * bufB ! (n * k + idx mod n))
                   (c (idx div n) (idx mod n)))
       [0..<m * n]"

section \<open>Example states\<close>

text \<open>A 2 by 3 matrix at reference 0 and a 2 by 2 matrix at reference 1.\<close>

definition ex_mismatch :: "real state" where
  "ex_mismatch =
     \<lparr>objs = [0 \<mapsto> \<lparr>nrow = 2, ncol = 3, data = Some 0\<rparr>, 1 \<mapsto> \<lparr>nrow = 2, ncol = 2, data = Some 1\<rparr>],
      cells = [0 \<mapsto> [1, 2, 3, 4, 5, 6], 1 \<mapsto> [1, 0, 0, 1]],
      brk = 2\<rparr>"

text \<open>Two 1 by 1 matrices: \<open>[5]\<close> at reference 0 and \<open>[7]\<close> at reference 1.\<close>

definition ex_move :: "real state" where
  "ex_move =
     \<lparr>objs = [0 \<mapsto> \<lparr>nrow = 1, ncol = 1, data = Some 0\<rparr>, 1 \<mapsto> \<lparr>nrow = 1, ncol = 1, data = Some 1\<rparr>],
      cells = [0 \<mapsto> [5], 1 \<mapsto> [7]],
      brk = 2\<rparr>"


text \<open>
  Three 1 by 1 matrices of doubles: a quiet NaN at reference 0, \<open>+0.0\<close> at reference 1
  and \<open>-0.0\<close> at reference 2.
\<close>

definition ex_special :: "binary64 state" where
  "ex_special =
     \<lparr>objs = [0 \<mapsto> \<lparr>nrow = 1, ncol = 1, data = Some 0\<rparr>, 1 \<mapsto> \<lparr>nrow = 1, ncol = 1, data = Some 1\<rparr>,
              2 \<mapsto> \<lparr>nrow = 1, ncol = 1, data = Some 2\<rparr>],
      cells = [0 \<mapsto> [0x7FF8000000000000], 1 \<mapsto> [0], 2 \<mapsto> [0x8000000000000000]],
      brk = 3\<rparr>"

text \<open>
  The matrices of the spec's example: \<open>[[1, 2, 3], [4, 5, 6]]\<close> at reference 0 and
  \<open>[[7, 8], [9, 10], [11, 12]]\<close> at reference 1.
\<close>

definition ex_naive :: "real state" where
  "ex_naive =
     \<lparr>objs = [0 \<mapsto> \<lparr>nrow = 2, ncol = 3, data = Some 0\<rparr>, 1 \<mapsto> \<lparr>nrow = 3, ncol = 2, data = Some 1\<rparr>],
      cells = [0 \<mapsto> [1, 2, 3, 4, 5, 6], 1 \<mapsto> [7, 8, 9, 10, 11, 12]],
      brk = 2\<rparr>"

text \<open>The 1 by 2 matrix \<open>[[1, 2]]\<close> at reference 0 and the 2 by 1 matrix \<open>[[3], [4]]\<close> at reference 1.\<close>

definition ex_tile :: "real state" where
  "ex_tile =
     \<lparr>objs = [0 \<mapsto> \<lparr>nrow = 1, ncol = 2, data = Some 0\<rparr>, 1 \<mapsto> \<lparr>nrow = 2, ncol = 1, data = Some 1\<rparr>],
      cells = [0 \<mapsto> [1, 2], 1 \<mapsto> [3, 4]],
      brk = 2\<rparr>"

text \<open>
  A matrix of \<open>2 ^ 32\<close> rows and no column at reference 0 and a matrix of no row and
  \<open>2 ^ 32\<close> columns at reference 1, as \<^verbatim>\<open>Matrix(4294967296, 0)\<close> and
  \<^verbatim>\<open>Matrix(0, 4294967296)\<close> construct them: without elements and without array.
\<close>

definition ex_huge :: "real state" where
  "ex_huge =
     \<lparr>objs = [0 \<mapsto> \<lparr>nrow = 2 ^ 32, ncol = 0, data = None\<rparr>,
              1 \<mapsto> \<lparr>nrow = 0, ncol = 2 ^ 32, data = None\<rparr>],
      cells = (\<lambda>_. None),
      brk = 0\<rparr>"

text \<open>
  A matrix of \<open>2 ^ 63 + 1\<close> rows and no column at reference 0 and a matrix of no row
  and no column at reference 1, both without elements and without array.
\<close>

definition ex_wrap :: "real state" where
  "ex_wrap =
     \<lparr>objs = [0 \<mapsto> \<lparr>nrow = 2 ^ 63 + 1, ncol = 0, data = None\<rparr>,
              1 \<mapsto> \<lparr>nrow = 0, ncol = 0, data = None\<rparr>],
      cells = (\<lambda>_. None),
      brk = 0\<rparr>"

text \<open>Two 2 by 2 matrices: \<open>[[1, 2], [3, 4]]\<close> at reference 0 and \<open>[[5, 6], [7, 8]]\<close> at reference 1.\<close>

definition ex_square :: "real state" where
  "ex_square =
     \<lparr>objs = [0 \<mapsto> \<lparr>nrow = 2, ncol = 2, data = Some 0\<rparr>, 1 \<mapsto> \<lparr>nrow = 2, ncol = 2, data = Some 1\<rparr>],
      cells = [0 \<mapsto> [1, 2, 3, 4], 1 \<mapsto> [5, 6, 7, 8]],
      brk = 2\<rparr>"

section \<open>Basic facts about objects and arrays\<close>

lemma Matrix_update_all:
  "(x :: Matrix)\<lparr>nrow := nrow y, ncol := ncol y, data := data y\<rparr> = (y :: Matrix)"
  by (cases x, cases y) simp

lemma size_t_id: "x < 2 ^ 64 \<Longrightarrow> size_t x = x"
  by (simp add: size_t_def)

lemma size_t_index: "c * i + j < 2 ^ 64 \<Longrightarrow> size_t (size_t (c * i) + j) = c * i + j"
  by (simp add: size_t_def)

lemma reset_buffer_null:
  assumes "objs s this = Some m" and "data m = None" and "r * c < 2 ^ 64"
  shows "reset_buffer s this r c =
     Inr (if r * c \<noteq> 0
          then s\<lparr>cells := (cells s)(brk s \<mapsto> replicate (r * c) 0), brk := Suc (brk s),
                 objs := (objs s)(this \<mapsto> \<lparr>nrow = r, ncol = c, data = Some (brk s)\<rparr>)\<rparr>
          else s\<lparr>objs := (objs s)(this \<mapsto> \<lparr>nrow = r, ncol = c, data = None\<rparr>)\<rparr>)"
  using assms by (simp add: reset_buffer_def new_zeroed_def size_t_id)

lemma swap_members_eq:
  assumes "objs s a = Some x" and "objs s b = Some y" and "a \<noteq> b"
  shows "swap_members s a b = Inr (s\<lparr>objs := (objs s)(a \<mapsto> y, b \<mapsto> x)\<rparr>)"
  using assms
  by (simp add: swap_members_def swap_nrow_def swap_ncol_def swap_data_def Matrix_update_all)

lemma to_vector_cong:
  assumes "objs s' a = objs s b" and "cells s' = cells s"
  shows "to_vector s' a = to_vector s b"
  using assms by (simp add: to_vector_def Let_def split: option.splits)

section \<open>Moving\<close>

lemma Matrix_move_ctor_eq:
  assumes "objs s other = Some mx" and "this \<noteq> other"
  shows "Matrix_move_ctor s this other =
           Inr (s\<lparr>objs := (objs s)(this \<mapsto> mx, other \<mapsto> \<lparr>nrow = 0, ncol = 0, data = None\<rparr>)\<rparr>)"
proof -
  let ?s0 = "s\<lparr>objs := (objs s)(this \<mapsto> \<lparr>nrow = nrow mx, ncol = ncol mx, data = Matrix_data_default\<rparr>)\<rparr>"
  let ?s1 = "s\<lparr>objs := (objs s)(this \<mapsto> \<lparr>nrow = 0, ncol = 0, data = None\<rparr>)\<rparr>"
  have r: "reset_buffer ?s0 this 0 0 = Inr ?s1"
    by (simp add: reset_buffer_null [where m = "\<lparr>nrow = nrow mx, ncol = ncol mx, data = None\<rparr>"]
        Matrix_data_default_def)
  have sw: "swap_members ?s1 this other =
              Inr (?s1\<lparr>objs := (objs ?s1)(this \<mapsto> mx, other \<mapsto> \<lparr>nrow = 0, ncol = 0, data = None\<rparr>)\<rparr>)"
    using assms by (intro swap_members_eq) simp_all
  show ?thesis
    using assms r sw by (simp add: Matrix_move_ctor_def)
qed

lemma Matrix_move_assign_eq:
  assumes "objs s this = Some my" and "objs s other = Some mx" and "this \<noteq> other"
  shows "Matrix_move_assign s this other = Inr (s\<lparr>objs := (objs s)(this \<mapsto> mx, other \<mapsto> my)\<rparr>)"
  using assms by (simp add: Matrix_move_assign_def swap_members_eq)

text \<open>
  What the two moves do. Moving \<open>X\<close> into a new object \<open>Y\<close> (move construction) leaves
  \<open>X\<close> a valid empty 0 by 0 matrix without array, and \<open>Y\<close> holds the members of \<open>X\<close>,
  the pointer to its array among them. Moving \<open>X\<close> into another existing object \<open>Y'\<close>
  (move assignment) exchanges the members of the two objects: \<open>Y'\<close> holds the
  dimensions and the array of \<open>X\<close>, and \<open>X\<close> holds what \<open>Y'\<close> held before. In both
  cases no array is allocated, released or written: the store of arrays is the same
  before and after, so no element is copied.
\<close>

lemma move_transfers_buffer:
  assumes "objs s X = Some mx" and "objs s Y' = Some my" and "Y \<noteq> X" and "Y' \<noteq> X"
  shows "(\<exists>s'. Matrix_move_ctor s Y X = Inr s' \<and>
            objs s' Y = Some mx \<and> objs s' X = Some \<lparr>nrow = 0, ncol = 0, data = None\<rparr> \<and>
            valid s' X \<and> cells s' = cells s \<and> brk s' = brk s \<and>
            to_vector s' Y = to_vector s X) \<and>
         (\<exists>s'. Matrix_move_assign s Y' X = Inr s' \<and>
            objs s' Y' = Some mx \<and> objs s' X = Some my \<and>
            cells s' = cells s \<and> brk s' = brk s \<and>
            to_vector s' Y' = to_vector s X \<and> to_vector s' X = to_vector s Y')"
proof -
  let ?s1 = "s\<lparr>objs := (objs s)(Y \<mapsto> mx, X \<mapsto> \<lparr>nrow = 0, ncol = 0, data = None\<rparr>)\<rparr>"
  let ?s2 = "s\<lparr>objs := (objs s)(Y' \<mapsto> mx, X \<mapsto> my)\<rparr>"
  have c: "Matrix_move_ctor s Y X = Inr ?s1"
    using assms by (simp add: Matrix_move_ctor_eq)
  have a: "Matrix_move_assign s Y' X = Inr ?s2"
    using assms by (simp add: Matrix_move_assign_eq)
  have v1: "to_vector ?s1 Y = to_vector s X"
    using assms by (intro to_vector_cong) simp_all
  have v2: "to_vector ?s2 Y' = to_vector s X" "to_vector ?s2 X = to_vector s Y'"
    using assms by (intro to_vector_cong; simp)+
  have "valid ?s1 X"
    by (simp add: valid_def)
  with c a v1 v2 assms show ?thesis
    by simp
qed

text \<open>
  Claim C3 fails on the code for move assignment. The move constructor resets the new
  object to an empty 0 by 0 matrix before it exchanges the members with the source, so
  the source is left empty; \<^verbatim>\<open>operator=(Matrix &&)\<close> exchanges the members without that
  step. With \<open>X = [5]\<close> at reference 0 and \<open>Y = [7]\<close> at reference 1, both valid, after
  \<^verbatim>\<open>Y = std::move(X)\<close> the object \<open>X\<close> is not an empty 0 by 0 matrix: it is the 1 by 1
  matrix \<open>[7]\<close>. Moving the same \<open>X\<close> into a new object at reference 2 leaves \<open>X\<close> empty.
\<close>

theorem move_assign_source_not_emptied:
  "valid ex_move 0 \<and> valid ex_move 1 \<and>
   \<not> isl (Matrix_move_assign ex_move 1 0) \<and>
   objs (projr (Matrix_move_assign ex_move 1 0)) 0 = Some \<lparr>nrow = 1, ncol = 1, data = Some 1\<rparr> \<and>
   to_vector (projr (Matrix_move_assign ex_move 1 0)) 0 = Inr [7] \<and>
   \<not> isl (Matrix_move_ctor ex_move 2 0) \<and>
   objs (projr (Matrix_move_ctor ex_move 2 0)) 0 = Some \<lparr>nrow = 0, ncol = 0, data = None\<rparr>"
  by (simp add: ex_move_def valid_def Matrix_move_assign_def Matrix_move_ctor_def
      reset_buffer_def Matrix_data_default_def swap_members_def swap_nrow_def
      swap_ncol_def swap_data_def to_vector_def size_t_def)

section \<open>Failing at entry\<close>

text \<open>
  Claim C5. When \<open>mat1.ncol\<close> differs from \<open>mat2.nrow\<close>, \<open>multiply_naive\<close> and
  \<open>multiply_tile\<close> (whatever the tile size) throw at entry: the exception carries
  the state of the call, unchanged, so no result object has been constructed and no
  array allocated.
\<close>

theorem dimension_mismatch_at_entry:
  assumes "objs s mat1 = Some m1" and "objs s mat2 = Some m2" and "ncol m1 \<noteq> nrow m2"
  shows "multiply_naive s ret mat1 mat2 = Inl (DimensionMismatch s) \<and>
         multiply_tile s ret mat1 mat2 tile_size = Some (Inl (DimensionMismatch s))"
  using assms by (simp add: multiply_naive_def multiply_tile_def)

theorem dimension_mismatch_at_entry_witness:
  "objs ex_mismatch 0 = Some \<lparr>nrow = 2, ncol = 3, data = Some 0\<rparr> \<and>
   objs ex_mismatch 1 = Some \<lparr>nrow = 2, ncol = 2, data = Some 1\<rparr> \<and>
   ncol \<lparr>nrow = 2, ncol = 3, data = Some 0\<rparr> \<noteq> nrow \<lparr>nrow = 2, ncol = 2, data = Some 1\<rparr> \<and>
   multiply_naive ex_mismatch 2 0 1 = Inl (DimensionMismatch ex_mismatch) \<and>
   multiply_tile ex_mismatch 2 0 1 16 = Some (Inl (DimensionMismatch ex_mismatch))"
  using dimension_mismatch_at_entry [of ex_mismatch 0 "\<lparr>nrow = 2, ncol = 3, data = Some 0\<rparr>" 1
      "\<lparr>nrow = 2, ncol = 2, data = Some 1\<rparr>" 2 16]
  by (simp add: ex_mismatch_def)

section \<open>Facts about the loops\<close>

lemma for_loop_done: "n \<le> i \<Longrightarrow> for_loop i n body s = Inr s"
  by (simp add: for_loop.simps)

lemma for_loop_step:
  "i < n \<Longrightarrow> for_loop i n body s =
     (case body i s of Inl e \<Rightarrow> Inl e | Inr s' \<Rightarrow> for_loop (Suc i) n body s')"
  by (subst for_loop.simps) simp

text \<open>A loop whose state at the start of iteration \<open>k\<close> is \<open>f k\<close>.\<close>

lemma for_loop_chain:
  assumes "i \<le> n" and "\<And>k. i \<le> k \<Longrightarrow> k < n \<Longrightarrow> body k (f k) = Inr (f (Suc k))"
  shows "for_loop i n body (f i) = Inr (f n)"
  using assms
proof (induction "n - i" arbitrary: i)
  case 0
  then show ?case by (simp add: for_loop_done)
next
  case (Suc d)
  then have "i < n" by simp
  moreover have "body i (f i) = Inr (f (Suc i))"
    using Suc.prems \<open>i < n\<close> by simp
  moreover have "for_loop (Suc i) n body (f (Suc i)) = Inr (f n)"
    using Suc.hyps Suc.prems \<open>i < n\<close> by (intro Suc.hyps(1)) simp_all
  ultimately show ?case
    by (simp add: for_loop_step)
qed

text \<open>An invariant that every iteration keeps, and no iteration leaves the loop.\<close>

lemma for_loop_inv:
  assumes "I s" and "\<And>k t. i \<le> k \<Longrightarrow> k < n \<Longrightarrow> I t \<Longrightarrow> \<exists>t'. body k t = Inr t' \<and> I t'"
  shows "\<exists>s'. for_loop i n body s = Inr s' \<and> I s'"
  using assms
proof (induction "n - i" arbitrary: i s)
  case 0
  then show ?case by (simp add: for_loop_done)
next
  case (Suc d)
  then have lt: "i < n" by simp
  obtain t where t: "body i s = Inr t" "I t"
    using Suc.prems(2) [of i s] lt Suc.prems(1) by auto
  have "\<exists>s'. for_loop (Suc i) n body t = Inr s' \<and> I s'"
    using Suc.hyps(2) lt t(2) Suc.prems(2) by (intro Suc.hyps(1)) simp_all
  then show ?case
    using lt t by (simp add: for_loop_step)
qed

text \<open>Partial correctness: an invariant kept by every iteration that continues.\<close>

lemma for_loop_keeps:
  assumes "for_loop i n body s = Inr s'" and "I s"
    and "\<And>k t t'. i \<le> k \<Longrightarrow> k < n \<Longrightarrow> I t \<Longrightarrow> body k t = Inr t' \<Longrightarrow> I t'"
  shows "I s'"
  using assms
proof (induction "n - i" arbitrary: i s)
  case 0
  then show ?case by (simp add: for_loop_done)
next
  case (Suc d)
  then have lt: "i < n" by simp
  from Suc.prems(1) lt obtain t where t: "body i s = Inr t" "for_loop (Suc i) n body t = Inr s'"
    by (auto simp: for_loop_step split: sum.splits)
  have "I t" using Suc.prems(3) [of i s t] lt Suc.prems(2) t(1) by simp
  show ?case
  proof (rule Suc.hyps(1) [of "Suc i" t])
    show "d = n - Suc i" using Suc.hyps(2) by simp
    show "for_loop (Suc i) n body t = Inr s'" by fact
    show "I t" by fact
    show "\<And>k u u'. Suc i \<le> k \<Longrightarrow> k < n \<Longrightarrow> I u \<Longrightarrow> body k u = Inr u' \<Longrightarrow> I u'"
      using Suc.prems(3) by (meson Suc_leD)
  qed
qed

text \<open>A loop without state, every iteration of which continues or leaves with \<open>x\<close>.\<close>

lemma for_loop_all:
  assumes "\<And>k. i \<le> k \<Longrightarrow> k < n \<Longrightarrow> body k u = Inr u \<or> body k u = Inl x"
  shows "for_loop i n body u =
           (if \<forall>k. i \<le> k \<and> k < n \<longrightarrow> body k u = Inr u then Inr u else Inl x)"
  using assms
proof (induction "n - i" arbitrary: i)
  case 0
  then show ?case by (simp add: for_loop_done)
next
  case (Suc d)
  then have lt: "i < n" by simp
  have IH: "for_loop (Suc i) n body u =
           (if \<forall>k. Suc i \<le> k \<and> k < n \<longrightarrow> body k u = Inr u then Inr u else Inl x)"
    using Suc.hyps(2) Suc.prems by (intro Suc.hyps(1)) simp_all
  have split: "(\<forall>k. i \<le> k \<and> k < n \<longrightarrow> body k u = Inr u) \<longleftrightarrow>
      body i u = Inr u \<and> (\<forall>k. Suc i \<le> k \<and> k < n \<longrightarrow> body k u = Inr u)"
    using lt by (metis Suc_leI le_antisym not_less_eq_eq order_refl le_Suc_eq)
  from Suc.prems [of i] lt have "body i u = Inr u \<or> body i u = Inl x" by simp
  then show ?case
  proof
    assume "body i u = Inr u"
    then show ?thesis using lt IH split by (simp add: for_loop_step)
  next
    assume "body i u = Inl x"
    then show ?thesis using lt split by (simp add: for_loop_step)
  qed
qed

text \<open>
  The stepping loop returns when the step is positive, every iteration returns, and the
  counter cannot wrap around before it reaches the bound.
\<close>

lemma for_step_done: "n \<le> t \<Longrightarrow> for_step t n step body s = Some (Inr s)"
  by (subst for_step.simps) simp

lemma for_step_step:
  "t < n \<Longrightarrow> for_step t n step body s =
     (case body t s of None \<Rightarrow> None | Some (Inl e) \<Rightarrow> Some (Inl e)
      | Some (Inr s') \<Rightarrow> for_step (size_t (t + step)) n step body s')"
  by (subst for_step.simps) simp

lemma for_step_next:
  assumes "t < n" and "n + step \<le> 2 ^ 64"
  shows "size_t (t + step) = t + step"
  using assms by (simp add: size_t_id)

lemma for_step_returns:
  assumes "0 < step" and "n + step \<le> 2 ^ 64" and "\<And>k u. \<exists>r. body k u = Some r"
  shows "\<exists>r. for_step t n step body s = Some r"
  using assms
proof (induction "n - t" arbitrary: t s rule: less_induct)
  case less
  show ?case
  proof (cases "t < n")
    case False
    then show ?thesis by (simp add: for_step_done)
  next
    case True
    obtain r where r: "body t s = Some r" using less.prems(3) by blast
    have w: "size_t (t + step) = t + step"
      using True less.prems(2) by (rule for_step_next)
    show ?thesis
    proof (cases r)
      case (Inl e)
      then show ?thesis using True r by (simp add: for_step_step)
    next
      case (Inr s1)
      have "n - (t + step) < n - t" using True less.prems(1) by simp
      then have "\<exists>r. for_step (t + step) n step body s1 = Some r"
        using less.prems by (intro less.hyps) simp_all
      then show ?thesis using True r Inr by (simp add: for_step_step w)
    qed
  qed
qed

lemma for_step_inv:
  assumes "0 < step" and "n + step \<le> 2 ^ 64" and "I s"
    and "\<And>k u. k < n \<Longrightarrow> I u \<Longrightarrow> \<exists>u'. body k u = Some (Inr u') \<and> I u'"
  shows "\<exists>s'. for_step t n step body s = Some (Inr s') \<and> I s'"
  using assms
proof (induction "n - t" arbitrary: t s rule: less_induct)
  case less
  show ?case
  proof (cases "t < n")
    case False
    then show ?thesis using less.prems(3) by (simp add: for_step_done)
  next
    case True
    obtain s1 where s1: "body t s = Some (Inr s1)" "I s1"
      using less.prems(4) [OF True less.prems(3)] by blast
    have w: "size_t (t + step) = t + step"
      using True less.prems(2) by (rule for_step_next)
    have "n - (t + step) < n - t" using True less.prems(1) by simp
    then have "\<exists>s'. for_step (t + step) n step body s1 = Some (Inr s') \<and> I s'"
      using less.prems s1(2) by (intro less.hyps) simp_all
    then show ?thesis using True s1 by (simp add: for_step_step w)
  qed
qed

lemma for_step_keeps:
  assumes "for_step t n step body s = Some (Inr s')" and "I s"
    and "\<And>k u u'. I u \<Longrightarrow> body k u = Some (Inr u') \<Longrightarrow> I u'"
  shows "I s'"
proof -
  have "b = body \<longrightarrow> I s \<longrightarrow> y = Inr s' \<longrightarrow> I s'"
    if "for_step t n step b s = Some y" for b y
    using that
  proof (rule for_step.raw_induct [rotated, where P = "\<lambda>t n step b s y. b = body \<longrightarrow> I s \<longrightarrow> y = Inr s' \<longrightarrow> I s'"])
    fix f t n step b s y
    assume IH: "\<And>t n step b s y. f t n step b s = Some y \<Longrightarrow> b = body \<longrightarrow> I s \<longrightarrow> y = Inr s' \<longrightarrow> I s'"
      and eq: "(if t < n then case b t s of None \<Rightarrow> None | Some (Inl e) \<Rightarrow> Some (Inl e)
                 | Some (Inr s') \<Rightarrow> f (size_t (t + step)) n step b s' else Some (Inr s)) = Some y"
    show "b = body \<longrightarrow> I s \<longrightarrow> y = Inr s' \<longrightarrow> I s'"
    proof (intro impI)
      assume b: "b = body" and Is: "I s" and y: "y = Inr s'"
      show "I s'"
      proof (cases "t < n")
        case False
        with eq y Is show ?thesis by simp
      next
        case True
        with eq y b obtain u where u: "body t s = Some (Inr u)"
          and r: "f (size_t (t + step)) n step body u = Some (Inr s')"
          by (auto split: option.splits sum.splits)
        from assms(3) Is u have "I u" by blast
        with IH [OF r] show ?thesis by blast
      qed
    qed
  qed
  with assms show ?thesis by blast
qed

text \<open>
  The stepping loop does not return when its counter stays, for ever, in a set of
  values below the bound at which the body returns with the state as it was.
\<close>

lemma for_step_diverges:
  assumes "t0 \<in> C" and "\<And>t. t \<in> C \<Longrightarrow> t < n \<and> size_t (t + step) \<in> C"
    and "\<And>t. t \<in> C \<Longrightarrow> body t s = Some (Inr s)"
  shows "for_step t0 n step body s = None"
proof -
  have "\<not> (t \<in> C \<and> n' = n \<and> step' = step \<and> b = body \<and> u = s)"
    if "for_step t n' step' b u = Some y" for t n' step' b u y
    using that
  proof (rule for_step.raw_induct [rotated, where P = "\<lambda>t n' step' b u y.
      \<not> (t \<in> C \<and> n' = n \<and> step' = step \<and> b = body \<and> u = s)"])
    fix f t n' step' b u y
    assume IH: "\<And>t n' step' b u y. f t n' step' b u = Some y \<Longrightarrow>
        \<not> (t \<in> C \<and> n' = n \<and> step' = step \<and> b = body \<and> u = s)"
      and eq: "(if t < n' then case b t u of None \<Rightarrow> None | Some (Inl e) \<Rightarrow> Some (Inl e)
                 | Some (Inr s') \<Rightarrow> f (size_t (t + step')) n' step' b s' else Some (Inr u)) = Some y"
    show "\<not> (t \<in> C \<and> n' = n \<and> step' = step \<and> b = body \<and> u = s)"
    proof
      assume a: "t \<in> C \<and> n' = n \<and> step' = step \<and> b = body \<and> u = s"
      then have "t < n" "size_t (t + step) \<in> C" "body t s = Some (Inr s)"
        using assms(2,3) by blast+
      with eq a have "f (size_t (t + step)) n step body s = Some y"
        by simp
      from IH [OF this] \<open>size_t (t + step) \<in> C\<close> show False
        by simp
    qed
  qed
  then have "for_step t0 n step body s \<noteq> Some y" for y
    using assms(1) by blast
  then show ?thesis
    by (cases "for_step t0 n step body s") auto
qed

lemma index_in_range: "i < r \<Longrightarrow> j < c \<Longrightarrow> c * i + j < r * (c::nat)"
proof -
  assume "i < r" "j < c"
  then have "c * i + j < c * i + c" by simp
  also have "\<dots> = c * Suc i" by simp
  also have "\<dots> \<le> c * r" using \<open>i < r\<close> by (intro mult_le_mono2) simp
  finally show ?thesis by (simp add: mult.commute)
qed

lemma fill_step:
  "k < length v \<Longrightarrow> length old = length v \<Longrightarrow>
     (take k v @ drop k old)[k := v ! k] = take (Suc k) v @ drop (Suc k) old"
proof -
  assume k: "k < length v" and l: "length old = length v"
  have "drop k old = old ! k # drop (Suc k) old"
    using k l by (simp add: Cons_nth_drop_Suc)
  then show ?thesis
    using k by (simp add: list_update_append take_Suc_conv_app_nth)
qed

lemma Matrix_at_cell:
  assumes "objs s this = Some m" and "data m = Some a" and "cells s a = Some buf"
    and "ncol m * i + j < length buf" and "length buf < 2 ^ 64"
  shows "Matrix_at s this i j = Inr (buf ! (ncol m * i + j))"
  using assms by (simp add: Matrix_at_def load_def size_t_index)

lemma Matrix_put_cell:
  assumes "objs s this = Some m" and "data m = Some a" and "cells s a = Some buf"
    and "ncol m * i + j < length buf" and "length buf < 2 ^ 64"
  shows "Matrix_put s this i j v = Inr (s\<lparr>cells := (cells s)(a \<mapsto> buf[ncol m * i + j := v])\<rparr>)"
  using assms by (simp add: Matrix_put_def store_def size_t_index)

lemma state_cell_triv: "cells s a = Some buf \<Longrightarrow> s\<lparr>cells := (cells s)(a \<mapsto> buf)\<rparr> = s"
  by (simp add: map_upd_triv)

lemma Matrix_assign_vec_fill:
  assumes o: "objs s this = Some m" and d: "data m = Some a" and c: "cells s a = Some old"
    and l: "length old = nrow m * ncol m" and lv: "length vec = nrow m * ncol m"
    and b: "nrow m * ncol m < 2 ^ 64"
  shows "Matrix_assign_vec s this vec = Inr (s\<lparr>cells := (cells s)(a \<mapsto> vec)\<rparr>)"
proof -
  define F where "F k = (k, s\<lparr>cells := (cells s)(a \<mapsto> take k vec @ drop k old)\<rparr>)" for k
  define inner where "inner = (\<lambda>(i::nat) (j::nat) (ks :: nat \<times> 'a state).
      case ks of (k, s) \<Rightarrow>
        if k < length vec then
          (case Matrix_put s this i j (vec ! k) of
             Inl e \<Rightarrow> Inl e
           | Inr s' \<Rightarrow> Inr (size_t (Suc k), s'))
        else (Inl UndefinedBehaviour :: 'a state error + nat \<times> 'a state))"
  have step: "inner i j (F (ncol m * i + j)) = Inr (F (Suc (ncol m * i + j)))"
    if "i < nrow m" "j < ncol m" for i j
  proof -
    let ?k = "ncol m * i + j"
    have k: "?k < length vec" using that lv index_in_range by simp
    have w: "size_t (Suc ?k) = Suc ?k"
      using k lv b by (intro size_t_id) simp
    let ?t = "s\<lparr>cells := (cells s)(a \<mapsto> take ?k vec @ drop ?k old)\<rparr>"
    have "Matrix_put ?t this i j (vec ! ?k) =
            Inr (?t\<lparr>cells := (cells ?t)(a \<mapsto> (take ?k vec @ drop ?k old)[?k := vec ! ?k])\<rparr>)"
      using o d k l lv b by (intro Matrix_put_cell) simp_all
    then show ?thesis
      using k l lv w by (simp add: inner_def F_def fill_step)
  qed
  have row: "for_loop 0 (ncol m) (inner i) (F (ncol m * i)) = Inr (F (ncol m * Suc i))"
    if "i < nrow m" for i
    using for_loop_chain [where i = 0 and n = "ncol m" and body = "inner i"
        and f = "\<lambda>j. F (ncol m * i + j)"] step that
    by (simp add: add.commute)
  have all: "for_loop 0 (nrow m) (\<lambda>i. for_loop 0 (ncol m) (inner i)) (F 0) = Inr (F (ncol m * nrow m))"
    using for_loop_chain [where i = 0 and n = "nrow m" and body = "\<lambda>i. for_loop 0 (ncol m) (inner i)"
        and f = "\<lambda>i. F (ncol m * i)"] row
    by simp
  have F0: "F 0 = (0, s)"
    using c by (simp add: F_def state_cell_triv)
  have Fn: "F (ncol m * nrow m) = (ncol m * nrow m, s\<lparr>cells := (cells s)(a \<mapsto> vec)\<rparr>)"
    using l lv by (simp add: F_def mult.commute)
  show ?thesis
    using o lv b all F0 Fn
    by (simp add: Matrix_assign_vec_def inner_def mult.commute size_t_id)
qed

section \<open>Construction from a flat value sequence\<close>

lemma for_loop_nested_empty:
  assumes "r = 0 \<or> c = 0"
  shows "for_loop 0 r (\<lambda>i. for_loop 0 c (body i)) s = Inr s"
proof (cases "r = 0")
  case True
  then show ?thesis by (simp add: for_loop_done)
next
  case False
  with assms have "c = 0" by simp
  then show ?thesis
    using for_loop_chain [where i = 0 and n = r and f = "\<lambda>_. s"
        and body = "\<lambda>i. for_loop 0 c (body i)"]
    by (simp add: for_loop_done)
qed

text \<open>A loop whose body returns with the state as it was at every iteration.\<close>

lemma for_loop_skip:
  assumes "\<And>k. i \<le> k \<Longrightarrow> k < n \<Longrightarrow> body k s = Inr s"
  shows "for_loop i n body s = Inr s"
proof (cases "i \<le> n")
  case True
  then show ?thesis
    using for_loop_chain [where i = i and n = n and f = "\<lambda>_. s" and body = body] assms
    by simp
next
  case False
  then show ?thesis by (simp add: for_loop_done)
qed

lemma Matrix_assign_vec_empty:
  assumes "objs s this = Some m" and "nrow m * ncol m = 0" and "vec = []"
  shows "Matrix_assign_vec s this vec = Inr s"
proof -
  have e: "nrow m = 0 \<or> ncol m = 0"
    using assms(2) by simp
  have z: "size_t (nrow m * ncol m) = 0"
    using assms(2) by (auto simp: size_t_def)
  show ?thesis
    using assms(1,3) e by (simp add: Matrix_assign_vec_def for_loop_nested_empty z)
qed

lemma reset_buffer_fresh:
  assumes "r * c < 2 ^ 64"
  shows "reset_buffer (s\<lparr>objs := (objs s)(this \<mapsto> \<lparr>nrow = r', ncol = c', data = Matrix_data_default\<rparr>)\<rparr>)
     this r c = Inr (built s this r c (replicate (r * c) 0))"
  using assms
  by (simp add: reset_buffer_null [where m = "\<lparr>nrow = r', ncol = c', data = None\<rparr>"]
      Matrix_data_default_def built_def)

lemma Matrix_ctor_eq:
  assumes "r * c < 2 ^ 64"
  shows "Matrix_ctor s this r c = Inr (built s this r c (replicate (r * c) 0))"
  using assms by (simp add: Matrix_ctor_def reset_buffer_fresh)

lemma Matrix_ctor_vec_ok:
  assumes "length vec = r * c" and "r * c < 2 ^ 64"
  shows "Matrix_ctor_vec s this r c vec = Inr (built s this r c vec)"
proof (cases "r * c = 0")
  case True
  let ?s1 = "built s this r c (replicate (r * c) 0)"
  have "Matrix_assign_vec ?s1 this vec = Inr ?s1"
    using True assms
    by (intro Matrix_assign_vec_empty [where m = "\<lparr>nrow = r, ncol = c, data = None\<rparr>"])
      (auto simp: built_def)
  then show ?thesis
    using True assms(2) by (simp add: Matrix_ctor_vec_def reset_buffer_fresh built_def)
next
  case False
  let ?s1 = "built s this r c (replicate (r * c) 0)"
  have "Matrix_assign_vec ?s1 this vec = Inr (?s1\<lparr>cells := (cells ?s1)(brk s \<mapsto> vec)\<rparr>)"
    using False assms
    by (intro Matrix_assign_vec_fill [where m = "\<lparr>nrow = r, ncol = c, data = Some (brk s)\<rparr>"
          and old = "replicate (r * c) 0"])
      (auto simp: built_def)
  then show ?thesis
    using False assms(2) by (simp add: Matrix_ctor_vec_def reset_buffer_fresh built_def)
qed

lemma Matrix_ctor_vec_bad:
  assumes "length vec \<noteq> r * c" and "r * c < 2 ^ 64"
  shows "Matrix_ctor_vec s this r c vec =
     Inl (ShapeMismatch ((built s this r c (replicate (r * c) 0))\<lparr>objs := (objs s)(this := None)\<rparr>))"
proof -
  let ?s1 = "built s this r c (replicate (r * c) 0)"
  have o: "objs ?s1 this = Some \<lparr>nrow = r, ncol = c, data = (if r * c \<noteq> 0 then Some (brk s) else None)\<rparr>"
    by (simp add: built_def)
  have "Matrix_assign_vec ?s1 this vec = Inl (ShapeMismatch ?s1)"
    using assms by (simp add: Matrix_assign_vec_def o size_t_id)
  moreover have "(objs ?s1)(this := None) = (objs s)(this := None)"
    by (simp add: built_def)
  ultimately show ?thesis
    using assms(2) by (simp add: Matrix_ctor_vec_def reset_buffer_fresh)
qed

lemma valid_built:
  assumes "length buf = r * c"
  shows "valid (built s this r c buf) this"
  using assms by (simp add: valid_def built_def)

lemma to_vector_built:
  assumes "length buf = r * c" and "r * c < 2 ^ 64"
  shows "to_vector (built s this r c buf) this = Inr buf"
  using assms by (auto simp: to_vector_def built_def size_t_id)

text \<open>
  As long as the product \<open>rows * cols\<close> is a \<^verbatim>\<open>size_t\<close> value, constructing a matrix from
  \<open>rows\<close>, \<open>cols\<close> and a flat sequence whose length is not \<open>rows * cols\<close> throws
  ShapeMismatch, and no object exists at \<open>this\<close> afterwards (every other object is as
  before). When the length is \<open>rows * cols\<close> the construction succeeds, with a valid
  object of that shape.
\<close>

lemma ctor_vec_shape_check:
  assumes "rows * cols < 2 ^ 64"
  shows "(length vec \<noteq> rows * cols \<longrightarrow>
      (\<exists>s'. Matrix_ctor_vec s this rows cols vec = Inl (ShapeMismatch s') \<and>
            objs s' = (objs s)(this := None))) \<and>
   (length vec = rows * cols \<longrightarrow>
      (\<exists>s'. Matrix_ctor_vec s this rows cols vec = Inr s' \<and> valid s' this \<and>
            map_option nrow (objs s' this) = Some rows \<and>
            map_option ncol (objs s' this) = Some cols))"
proof (intro conjI impI)
  assume "length vec \<noteq> rows * cols"
  then show "\<exists>s'. Matrix_ctor_vec s this rows cols vec = Inl (ShapeMismatch s') \<and>
            objs s' = (objs s)(this := None)"
    using assms by (simp add: Matrix_ctor_vec_bad)
next
  assume l: "length vec = rows * cols"
  have "map_option nrow (objs (built s this rows cols vec) this) = Some rows"
    "map_option ncol (objs (built s this rows cols vec) this) = Some cols"
    by (simp_all add: built_def)
  with l show "\<exists>s'. Matrix_ctor_vec s this rows cols vec = Inr s' \<and> valid s' this \<and>
            map_option nrow (objs s' this) = Some rows \<and>
            map_option ncol (objs s' this) = Some cols"
    using assms by (simp add: Matrix_ctor_vec_ok valid_built)
qed

text \<open>
  Claim C6 fails on the code. The test of \<^verbatim>\<open>operator=(std::vector<double> const &)\<close>
  compares \<^verbatim>\<open>vec.size()\<close> with the \<^verbatim>\<open>size_t\<close> product \<^verbatim>\<open>nrow * ncol\<close>, which wraps around.
  For \<open>rows = 2 ^ 63\<close>, \<open>cols = 2\<close> and the empty sequence, whose length 0 is not
  \<open>rows * cols = 2 ^ 64\<close>, the product is 0 in the code: \<^verbatim>\<open>reset_buffer\<close> makes no
  array, the test passes, no ShapeMismatch is thrown, and the first iteration of the
  fill loop reads \<^verbatim>\<open>vec[0]\<close> of the empty sequence and writes through \<^verbatim>\<open>nullptr\<close>.
\<close>

theorem ctor_vec_product_wraps:
  "length ([] :: real list) \<noteq> 2 ^ 63 * 2 \<and>
   Matrix_ctor_vec init_state 0 (2 ^ 63) 2 ([] :: real list) = Inl UndefinedBehaviour"
  by (simp add: Matrix_ctor_vec_def reset_buffer_def Matrix_data_default_def init_state_def
      Matrix_assign_vec_def size_t_def for_loop.simps)

text \<open>
  Claim C7. For every \<open>rows\<close>, \<open>cols\<close> and flat sequence \<open>v\<close> of length
  \<open>rows * cols\<close>, constructing the matrix from \<open>v\<close> and exporting it with
  \<open>to_vector\<close> gives \<open>v\<close> back. The sequence is a \<^verbatim>\<open>std::vector\<close>, whose length is a
  \<^verbatim>\<open>size_t\<close> value.
\<close>

theorem ctor_vec_roundtrip:
  assumes "length v = rows * cols" and "length v < 2 ^ 64"
  shows "\<exists>s'. Matrix_ctor_vec s this rows cols v = Inr s' \<and> to_vector s' this = Inr v"
  using assms by (simp add: Matrix_ctor_vec_ok to_vector_built)

theorem ctor_vec_roundtrip_witness:
  "length [1, 2, 3, 4, 5, 6 :: real] = 2 * 3 \<and> length [1, 2, 3, 4, 5, 6 :: real] < 2 ^ 64 \<and>
   (\<exists>s'. Matrix_ctor_vec init_state 0 2 3 [1, 2, 3, 4, 5, 6 :: real] = Inr s' \<and>
         to_vector s' 0 = Inr [1, 2, 3, 4, 5, 6])"
proof -
  have l: "length [1, 2, 3, 4, 5, 6 :: real] = 2 * 3" "length [1, 2, 3, 4, 5, 6 :: real] < 2 ^ 64"
    by simp_all
  from ctor_vec_roundtrip [OF l, of init_state 0] l show ?thesis by blast
qed

section \<open>Valid matrices and their contents\<close>

lemma holds_valid:
  assumes "holds s this r c buf"
  shows "valid s this"
proof -
  from assms obtain m where m: "objs s this = Some m" "nrow m = r" "ncol m = c"
    "length buf = r * c"
    by (auto simp: holds_def split: option.splits)
  show ?thesis
  proof (cases "data m")
    case None
    with assms m show ?thesis by (simp add: holds_def valid_def)
  next
    case (Some a)
    with assms m have b: "buf \<noteq> []" "cells s a = Some buf"
      by (simp_all add: holds_def)
    then have "length buf \<noteq> 0" by simp
    with m have "nrow m * ncol m \<noteq> 0" by simp
    with m Some b show ?thesis by (simp add: valid_def)
  qed
qed

lemma holds_objs:
  assumes "holds s this r c buf"
  obtains m where "objs s this = Some m" and "nrow m = r" and "ncol m = c"
  using assms by (auto simp: holds_def split: option.splits)

lemma holds_size: "holds s this r c buf \<Longrightarrow> r * c < 2 ^ 64"
  by (auto simp: holds_def split: option.splits)

lemma holds_cell:
  assumes "holds s this r c buf" and "i < r" and "j < c"
  obtains a where "objs s this = Some \<lparr>nrow = r, ncol = c, data = Some a\<rparr>"
    and "cells s a = Some buf" and "length buf = r * c" and "length buf < 2 ^ 64"
proof -
  from assms(1) obtain m where m: "objs s this = Some m" "nrow m = r" "ncol m = c"
    "length buf = r * c" "r * c < 2 ^ 64"
    by (auto simp: holds_def split: option.splits)
  from assms(2,3) have "0 < r * c" by (cases r; cases c) simp_all
  with m assms(1) obtain a where a: "data m = Some a" "cells s a = Some buf"
    by (auto simp: holds_def split: option.splits)
  have "m = \<lparr>nrow = r, ncol = c, data = Some a\<rparr>"
    using m a by (cases m) simp
  with m a show ?thesis
    by (intro that [of a]) simp_all
qed

lemma holds_at:
  assumes "holds s this r c buf" and "i < r" and "j < c"
  shows "Matrix_at s this i j = Inr (buf ! (c * i + j))"
proof -
  from assms obtain a where a: "objs s this = Some \<lparr>nrow = r, ncol = c, data = Some a\<rparr>"
    "cells s a = Some buf" "length buf = r * c" "length buf < 2 ^ 64"
    by (rule holds_cell)
  have "c * i + j < length buf"
    using assms(2,3) a(3) by (simp add: index_in_range)
  with a show ?thesis
    using Matrix_at_cell [of s this "\<lparr>nrow = r, ncol = c, data = Some a\<rparr>" a buf i j] by simp
qed

lemma holds_put:
  assumes "holds s this r c buf" and "i < r" and "j < c"
  obtains a where "objs s this = Some \<lparr>nrow = r, ncol = c, data = Some a\<rparr>"
    and "cells s a = Some buf"
    and "Matrix_put s this i j v = Inr (s\<lparr>cells := (cells s)(a \<mapsto> buf[c * i + j := v])\<rparr>)"
proof -
  from assms obtain a where a: "objs s this = Some \<lparr>nrow = r, ncol = c, data = Some a\<rparr>"
    "cells s a = Some buf" "length buf = r * c" "length buf < 2 ^ 64"
    by (rule holds_cell)
  have "c * i + j < length buf"
    using assms(2,3) a(3) by (simp add: index_in_range)
  with a have "Matrix_put s this i j v = Inr (s\<lparr>cells := (cells s)(a \<mapsto> buf[c * i + j := v])\<rparr>)"
    using Matrix_put_cell [of s this "\<lparr>nrow = r, ncol = c, data = Some a\<rparr>" a buf i j v] by simp
  with a show ?thesis
    by (intro that [of a]) simp_all
qed

lemma holds_to_vector: "holds s this r c buf \<Longrightarrow> to_vector s this = Inr buf"
  by (auto simp: holds_def to_vector_def Let_def size_t_id split: option.splits)

lemma holds_built:
  "length buf = r * c \<Longrightarrow> r * c < 2 ^ 64 \<Longrightarrow> holds (built s this r c buf) this r c buf"
  by (auto simp: holds_def built_def)

text \<open>What a state must keep of another for a matrix to stay as it is.\<close>

lemma holds_frame:
  assumes "holds s this r c buf" and "objs s' this = objs s this"
    and "\<And>m a. objs s this = Some m \<Longrightarrow> data m = Some a \<Longrightarrow> cells s' a = cells s a"
  shows "holds s' this r c buf"
  using assms by (auto simp: holds_def split: option.splits)

lemma holds_live:
  assumes "holds s this r c buf" and "objs s this = Some m" and "data m = Some a"
  shows "cells s a = Some buf"
  using assms by (auto simp: holds_def)

lemma wf_heap_live: "wf_heap s \<Longrightarrow> cells s a = Some buf \<Longrightarrow> a < brk s"
  by (auto simp: wf_heap_def)

lemma holds_built_other:
  assumes "holds s other r c buf" and "wf_heap s" and "this \<noteq> other"
  shows "holds (built s this r' c' buf') other r c buf"
proof (rule holds_frame [OF assms(1)])
  show "objs (built s this r' c' buf') other = objs s other"
    using assms(3) by (simp add: built_def)
  fix m a assume "objs s other = Some m" "data m = Some a"
  with assms(1) have "cells s a = Some buf" by (rule holds_live)
  with assms(2) have "a < brk s" by (rule wf_heap_live)
  then show "cells (built s this r' c' buf') a = cells s a"
    by (simp add: built_def)
qed

lemma wf_heap_built: "wf_heap s \<Longrightarrow> wf_heap (built s this r c buf)"
  by (auto simp: wf_heap_def built_def)

lemma wf_heap_poke: "wf_heap s \<Longrightarrow> cells s a = Some old \<Longrightarrow> wf_heap (s\<lparr>cells := (cells s)(a \<mapsto> buf)\<rparr>)"
  by (auto simp: wf_heap_def)

lemma wf_heap_release: "wf_heap s \<Longrightarrow> wf_heap (release s m)"
  by (auto simp: wf_heap_def release_def split: option.splits if_splits)

section \<open>Copying\<close>

lemma separate_sym: "separate s a b \<Longrightarrow> separate s b a"
  by (auto simp: separate_def split: option.splits)

lemma copy_elements_empty:
  assumes "objs s this = Some m" and "nrow m * ncol m = 0"
  shows "copy_elements s this other = Inr s"
proof -
  have "nrow m = 0 \<or> ncol m = 0"
    using assms(2) by simp
  then show ?thesis
    using assms(1) by (simp add: copy_elements_def for_loop_nested_empty)
qed

lemma copy_elements_fill:
  assumes t: "objs s this = Some \<lparr>nrow = r, ncol = c, data = Some a\<rparr>"
    and ca: "cells s a = Some old" and lo: "length old = r * c"
    and o: "objs s other = Some \<lparr>nrow = r, ncol = c, data = Some ao\<rparr>"
    and ne: "ao \<noteq> a" and cs: "cells s ao = Some src" and ls: "length src = r * c"
    and b: "r * c < 2 ^ 64"
  shows "copy_elements s this other = Inr (s\<lparr>cells := (cells s)(a \<mapsto> src)\<rparr>)"
proof -
  define F where "F k = s\<lparr>cells := (cells s)(a \<mapsto> take k src @ drop k old)\<rparr>" for k
  define inner where "inner = (\<lambda>(i::nat) (j::nat) (s :: 'a state).
      case Matrix_at s other i j of
        Inl e \<Rightarrow> Inl e
      | Inr v \<Rightarrow> Matrix_put s this i j v)"
  have step: "inner i j (F (c * i + j)) = Inr (F (Suc (c * i + j)))"
    if "i < r" "j < c" for i j
  proof -
    let ?k = "c * i + j"
    have k: "?k < r * c" using that by (rule index_in_range)
    have "Matrix_at (F ?k) other i j = Inr (src ! ?k)"
      using Matrix_at_cell [of "F ?k" other "\<lparr>nrow = r, ncol = c, data = Some ao\<rparr>" ao src i j]
        o ne cs ls k b by (simp add: F_def)
    moreover have "Matrix_put (F ?k) this i j (src ! ?k) =
        Inr ((F ?k)\<lparr>cells := (cells (F ?k))(a \<mapsto> (take ?k src @ drop ?k old)[?k := src ! ?k])\<rparr>)"
      using Matrix_put_cell [of "F ?k" this "\<lparr>nrow = r, ncol = c, data = Some a\<rparr>" a
          "take ?k src @ drop ?k old" i j "src ! ?k"]
        t lo ls k b by (simp add: F_def)
    ultimately show ?thesis
      using k lo ls by (simp add: inner_def F_def fill_step)
  qed
  have row: "for_loop 0 c (inner i) (F (c * i)) = Inr (F (c * Suc i))" if "i < r" for i
    using for_loop_chain [where i = 0 and n = c and body = "inner i" and f = "\<lambda>j. F (c * i + j)"]
      step that
    by (simp add: add.commute)
  have all: "for_loop 0 r (\<lambda>i. for_loop 0 c (inner i)) (F 0) = Inr (F (c * r))"
    using for_loop_chain [where i = 0 and n = r and body = "\<lambda>i. for_loop 0 c (inner i)"
        and f = "\<lambda>i. F (c * i)"] row
    by simp
  have F0: "F 0 = s"
    using ca by (simp add: F_def state_cell_triv)
  have Fn: "F (c * r) = s\<lparr>cells := (cells s)(a \<mapsto> src)\<rparr>"
    using lo ls by (simp add: F_def mult.commute)
  show ?thesis
    using t all F0 Fn by (simp add: copy_elements_def inner_def)
qed

lemma copy_elements_holds:
  assumes o: "holds s other r c src" and t: "holds s this r c old" and sep: "separate s this other"
    and wf: "wf_heap s"
  shows "\<exists>s'. copy_elements s this other = Inr s' \<and> holds s' this r c src \<and>
           holds s' other r c src \<and> separate s' this other \<and> wf_heap s'"
proof (cases "r * c = 0")
  case True
  from t obtain m where m: "objs s this = Some m" "nrow m = r" "ncol m = c"
    by (rule holds_objs)
  have "copy_elements s this other = Inr s"
    using m True by (intro copy_elements_empty [of s this m]) simp_all
  moreover have "src = []" "old = []"
    using o t True by (auto simp: holds_def split: option.splits)
  ultimately show ?thesis
    using assms by simp
next
  case False
  then have pos: "0 < r" "0 < c" by simp_all
  have b: "r * c < 2 ^ 64"
    using o by (rule holds_size)
  from t pos obtain a where a: "objs s this = Some \<lparr>nrow = r, ncol = c, data = Some a\<rparr>"
    "cells s a = Some old" "length old = r * c"
    by (rule holds_cell)
  from o pos obtain ao where ao: "objs s other = Some \<lparr>nrow = r, ncol = c, data = Some ao\<rparr>"
    "cells s ao = Some src" "length src = r * c"
    by (rule holds_cell)
  have ne: "ao \<noteq> a"
    using sep a(1) ao(1) by (auto simp: separate_def)
  let ?s' = "s\<lparr>cells := (cells s)(a \<mapsto> src)\<rparr>"
  have "copy_elements s this other = Inr ?s'"
    using a ao ne b by (intro copy_elements_fill) simp_all
  moreover have "holds ?s' this r c src"
    using a ao False b by (auto simp: holds_def)
  moreover have "holds ?s' other r c src"
    using ao ne False b by (auto simp: holds_def)
  moreover have "separate ?s' this other"
    using sep by (simp add: separate_def)
  moreover have "wf_heap ?s'"
    using wf a(2) by (rule wf_heap_poke)
  ultimately show ?thesis by blast
qed

lemma reset_buffer_holds:
  assumes "holds s this r' c' old" and "objs s this = Some m" and "r * c < 2 ^ 64"
  shows "reset_buffer s this r c = Inr (built (release s m) this r c (replicate (r * c) 0))"
proof (cases "data m")
  case None
  then show ?thesis
    using assms(2,3) by (simp add: reset_buffer_null built_def release_def)
next
  case (Some a)
  with assms have "cells s a = Some old" by (intro holds_live)
  then show ?thesis
    using assms(2,3) Some
    by (simp add: reset_buffer_def delete_arr_def new_zeroed_def built_def release_def size_t_id)
qed

lemma holds_release_other:
  assumes "holds s other r c buf" and "objs s this = Some m" and "separate s this other"
  shows "holds (release s m) other r c buf"
proof (rule holds_frame [OF assms(1)])
  show "objs (release s m) other = objs s other"
    by (simp add: release_def split: option.splits)
  fix mo a assume "objs s other = Some mo" "data mo = Some a"
  with assms(2,3) have "data m \<noteq> Some a"
    by (auto simp: separate_def)
  then show "cells (release s m) a = cells s a"
    by (auto simp: release_def split: option.splits)
qed

lemma separate_built:
  assumes "holds s other r c src" and "wf_heap s" and "this \<noteq> other"
  shows "separate (built s this r' c' buf) this other"
proof -
  from assms(1) obtain mo where mo: "objs s other = Some mo"
    by (rule holds_objs)
  have "data mo \<noteq> Some (brk s)"
  proof
    assume "data mo = Some (brk s)"
    with assms(1) mo have "cells s (brk s) = Some src" by (intro holds_live)
    with assms(2) have "brk s < brk s" by (rule wf_heap_live)
    then show False by simp
  qed
  then show ?thesis
    using mo assms(3) by (auto simp: separate_def built_def)
qed

lemma Matrix_copy_ctor_holds:
  assumes o: "holds s other r c src" and wf: "wf_heap s" and ne: "this \<noteq> other"
  shows "\<exists>s'. Matrix_copy_ctor s this other = Inr s' \<and> holds s' this r c src \<and>
           holds s' other r c src \<and> separate s' this other \<and> wf_heap s'"
proof -
  from o obtain mo where mo: "objs s other = Some mo" "nrow mo = r" "ncol mo = c"
    by (rule holds_objs)
  have b: "r * c < 2 ^ 64"
    using o by (rule holds_size)
  let ?s1 = "built s this r c (replicate (r * c) 0)"
  have "holds ?s1 other r c src"
    using o wf ne by (rule holds_built_other)
  moreover have "holds ?s1 this r c (replicate (r * c) 0)"
    using b by (simp add: holds_built)
  moreover have "separate ?s1 this other"
    using o wf ne by (rule separate_built)
  moreover have "wf_heap ?s1"
    using wf by (rule wf_heap_built)
  ultimately have "\<exists>s'. copy_elements ?s1 this other = Inr s' \<and> holds s' this r c src \<and>
           holds s' other r c src \<and> separate s' this other \<and> wf_heap s'"
    by (rule copy_elements_holds)
  then show ?thesis
    using mo b by (simp add: Matrix_copy_ctor_def reset_buffer_fresh)
qed

lemma Matrix_copy_assign_holds:
  assumes o: "holds s other r c src" and t: "holds s this r' c' old"
    and sep: "separate s this other" and wf: "wf_heap s" and ne: "this \<noteq> other"
  shows "\<exists>s'. Matrix_copy_assign s this other = Inr s' \<and> holds s' this r c src \<and>
           holds s' other r c src \<and> separate s' this other \<and> wf_heap s'"
proof -
  from o obtain mo where mo: "objs s other = Some mo" "nrow mo = r" "ncol mo = c"
    by (rule holds_objs)
  from t obtain mt where mt: "objs s this = Some mt" "nrow mt = r'" "ncol mt = c'"
    by (rule holds_objs)
  have b: "r * c < 2 ^ 64"
    using o by (rule holds_size)
  show ?thesis
  proof (cases "r' \<noteq> r \<or> c' \<noteq> c")
    case True
    let ?s0 = "release s mt"
    let ?s1 = "built ?s0 this r c (replicate (r * c) 0)"
    have r: "reset_buffer s this r c = Inr ?s1"
      using t mt(1) b by (rule reset_buffer_holds)
    have o0: "holds ?s0 other r c src"
      using o mt(1) sep by (rule holds_release_other)
    have wf0: "wf_heap ?s0"
      using wf by (rule wf_heap_release)
    have "holds ?s1 other r c src"
      using o0 wf0 ne by (rule holds_built_other)
    moreover have "holds ?s1 this r c (replicate (r * c) 0)"
      using b by (simp add: holds_built)
    moreover have "separate ?s1 this other"
      using o0 wf0 ne by (rule separate_built)
    moreover have "wf_heap ?s1"
      using wf0 by (rule wf_heap_built)
    ultimately have "\<exists>s'. copy_elements ?s1 this other = Inr s' \<and> holds s' this r c src \<and>
           holds s' other r c src \<and> separate s' this other \<and> wf_heap s'"
      by (rule copy_elements_holds)
    then show ?thesis
      using mo mt ne True r by (auto simp: Matrix_copy_assign_def)
  next
    case False
    then have "holds s this r c old" using t by simp
    with o have "\<exists>s'. copy_elements s this other = Inr s' \<and> holds s' this r c src \<and>
           holds s' other r c src \<and> separate s' this other \<and> wf_heap s'"
      using sep wf by (intro copy_elements_holds)
    then show ?thesis
      using mo mt ne False by (auto simp: Matrix_copy_assign_def)
  qed
qed

lemma put_independent:
  assumes a: "holds s a r c buf" and b: "holds s b r' c' buf'" and sep: "separate s a b"
    and "i < r" and "j < c"
  shows "\<exists>s'. Matrix_put s a i j v = Inr s' \<and> holds s' a r c (buf[c * i + j := v]) \<and>
           holds s' b r' c' buf'"
proof -
  from a \<open>i < r\<close> \<open>j < c\<close> obtain p where p: "objs s a = Some \<lparr>nrow = r, ncol = c, data = Some p\<rparr>"
    "cells s p = Some buf"
    "Matrix_put s a i j v = Inr (s\<lparr>cells := (cells s)(p \<mapsto> buf[c * i + j := v])\<rparr>)"
    by (rule holds_put)
  let ?s' = "s\<lparr>cells := (cells s)(p \<mapsto> buf[c * i + j := v])\<rparr>"
  have "holds ?s' a r c (buf[c * i + j := v])"
    using a p(1) by (auto simp: holds_def)
  moreover have "holds ?s' b r' c' buf'"
  proof (rule holds_frame [OF b])
    show "objs ?s' b = objs s b" by simp
    fix m q assume "objs s b = Some m" "data m = Some q"
    with sep p(1) have "q \<noteq> p" by (auto simp: separate_def)
    then show "cells ?s' q = cells s q" by simp
  qed
  ultimately show ?thesis using p(3) by simp
qed




section \<open>Equality\<close>

lemma all_index:
  "(\<forall>i<r. \<forall>j<c. P (c * i + j)) \<longleftrightarrow> (\<forall>k<r * c. P (k::nat))"
proof
  assume "\<forall>k<r * c. P k"
  then show "\<forall>i<r. \<forall>j<c. P (c * i + j)"
    by (simp add: index_in_range)
next
  assume a: "\<forall>i<r. \<forall>j<c. P (c * i + j)"
  show "\<forall>k<r * c. P k"
  proof (intro allI impI)
    fix k assume k: "k < r * c"
    then have c: "0 < c" by (cases c) simp_all
    have "k div c < r"
      using k c by (simp add: less_mult_imp_div_less)
    moreover have "k mod c < c"
      using c by simp
    ultimately have "P (c * (k div c) + k mod c)"
      using a by blast
    then show "P k" by simp
  qed
qed

lemma Matrix_eq_holds:
  assumes a: "holds s A r c bufA" and b: "holds s B r' c' bufB"
  shows "Matrix_eq ne s A B =
           Inr (r = r' \<and> c = c' \<and> (\<forall>k<r * c. \<not> ne (bufA ! k) (bufB ! k)))"
proof -
  from a obtain ma where ma: "objs s A = Some ma" "nrow ma = r" "ncol ma = c"
    by (rule holds_objs)
  from b obtain mb where mb: "objs s B = Some mb" "nrow mb = r'" "ncol mb = c'"
    by (rule holds_objs)
  show ?thesis
  proof (cases "r = r' \<and> c = c'")
    case False
    then show ?thesis
      using ma mb by (auto simp: Matrix_eq_def)
  next
    case True
    define inner where "inner = (\<lambda>(i::nat) (j::nat) (u::unit).
        case Matrix_at s A i j of
          Inl e \<Rightarrow> Inl (Inl e)
        | Inr x \<Rightarrow>
            (case Matrix_at s B i j of
               Inl e \<Rightarrow> Inl (Inl e)
             | Inr y \<Rightarrow> if ne x y then Inl (Inr False) else Inr u))"
    define differ where "differ i j = ne (bufA ! (c * i + j)) (bufB ! (c * i + j))" for i j
    have cell: "inner i j () = (if differ i j then Inl (Inr False) else Inr ())"
      if "i < r" "j < c" for i j
      using holds_at [OF a that] holds_at [of s B r c bufB i j] b True that
      by (simp add: inner_def differ_def)
    have row: "for_loop 0 c (inner i) () =
        (if \<forall>j<c. \<not> differ i j then Inr () else Inl (Inr False))" if "i < r" for i
    proof -
      have "for_loop 0 c (inner i) () =
          (if \<forall>j. 0 \<le> j \<and> j < c \<longrightarrow> inner i j () = Inr () then Inr () else Inl (Inr False))"
        using cell that by (intro for_loop_all) simp
      moreover have "(\<forall>j. 0 \<le> j \<and> j < c \<longrightarrow> inner i j () = Inr ()) \<longleftrightarrow> (\<forall>j<c. \<not> differ i j)"
        using cell that by auto
      ultimately show ?thesis by simp
    qed
    have "for_loop 0 r (\<lambda>i. for_loop 0 c (inner i)) () =
        (if \<forall>i. 0 \<le> i \<and> i < r \<longrightarrow> for_loop 0 c (inner i) () = Inr () then Inr ()
         else Inl (Inr False))"
      using row by (intro for_loop_all) simp
    moreover have "(\<forall>i. 0 \<le> i \<and> i < r \<longrightarrow> for_loop 0 c (inner i) () = Inr ()) \<longleftrightarrow>
        (\<forall>i<r. \<forall>j<c. \<not> differ i j)"
      using row by auto
    moreover have "(\<forall>i<r. \<forall>j<c. \<not> differ i j) \<longleftrightarrow> (\<forall>k<r * c. \<not> ne (bufA ! k) (bufB ! k))"
      unfolding differ_def by (rule all_index)
    ultimately have "for_loop 0 r (\<lambda>i. for_loop 0 c (inner i)) () =
        (if \<forall>k<r * c. \<not> ne (bufA ! k) (bufB ! k) then Inr () else Inl (Inr False))"
      by simp
    then show ?thesis
      using ma mb True by (simp add: Matrix_eq_def inner_def)
  qed
qed

text \<open>
  Claim C4, as the code has it. For valid matrices \<open>A\<close> and \<open>B\<close> of doubles,
  \<^verbatim>\<open>A == B\<close> returns true if and only if they have the same number of rows, the same
  number of columns, and every pair of corresponding elements compares equal under the
  comparison of doubles, without tolerance: neither element is a NaN, and the two have
  the same bit pattern or are both zeros.
\<close>

theorem equals_is_double_equality:
  assumes "holds s A r c bufA" and "holds s B r' c' bufB"
  shows "Matrix_eq double_ne s A B =
           Inr (r = r' \<and> c = c' \<and>
                (\<forall>k<r * c. \<not> is_nan (bufA ! k) \<and> \<not> is_nan (bufB ! k) \<and>
                   (bufA ! k = bufB ! k \<or> is_zero (bufA ! k) \<and> is_zero (bufB ! k))))"
proof -
  have "(\<forall>k<r * c. \<not> double_ne (bufA ! k) (bufB ! k)) \<longleftrightarrow>
        (\<forall>k<r * c. \<not> is_nan (bufA ! k) \<and> \<not> is_nan (bufB ! k) \<and>
                   (bufA ! k = bufB ! k \<or> is_zero (bufA ! k) \<and> is_zero (bufB ! k)))"
    by (auto simp: double_ne_def)
  then show ?thesis
    using Matrix_eq_holds [OF assms, of double_ne] by simp
qed

theorem equals_is_double_equality_witness:
  "holds ex_special 1 1 1 [0] \<and> holds ex_special 2 1 1 [0x8000000000000000] \<and>
   Matrix_eq double_ne ex_special 1 2 = Inr True \<and>
   Matrix_eq double_ne ex_special 1 1 = Inr True"
proof -
  have h: "holds ex_special 1 1 1 [0]" "holds ex_special 2 1 1 [0x8000000000000000]"
    by (simp_all add: ex_special_def holds_def)
  from equals_is_double_equality [OF h] equals_is_double_equality [OF h(1) h(1)] h
  show ?thesis
    by (simp add: is_nan_def is_zero_def)
qed

text \<open>
  Claim C4 as stated fails at special values. A 1 by 1 matrix holding a NaN is bit for
  bit equal to itself, and \<^verbatim>\<open>==\<close> returns false; the matrices \<open>[+0.0]\<close> and \<open>[-0.0]\<close>
  differ in one bit, and \<^verbatim>\<open>==\<close> returns true.
\<close>

theorem equals_counterexample:
  "holds ex_special 0 1 1 [0x7FF8000000000000] \<and>
   Matrix_eq double_ne ex_special 0 0 = Inr False \<and>
   holds ex_special 1 1 1 [0] \<and> holds ex_special 2 1 1 [0x8000000000000000] \<and>
   [0 :: binary64] \<noteq> [0x8000000000000000] \<and>
   Matrix_eq double_ne ex_special 1 2 = Inr True"
proof -
  have h: "holds ex_special 0 1 1 [0x7FF8000000000000]" "holds ex_special 1 1 1 [0]"
    "holds ex_special 2 1 1 [0x8000000000000000]"
    by (simp_all add: ex_special_def holds_def)
  from Matrix_eq_holds [OF h(1) h(1), of double_ne] Matrix_eq_holds [OF h(2) h(3), of double_ne] h
  show ?thesis
    by (simp add: double_ne_def is_nan_def is_zero_def)
qed

section \<open>The naive multiplication\<close>

lemma holds_poke_other:
  assumes "holds s other r c buf" and "objs s this = Some m" and "data m = Some a"
    and "separate s this other"
  shows "holds (s\<lparr>cells := (cells s)(a \<mapsto> buf')\<rparr>) other r c buf"
proof (rule holds_frame [OF assms(1)])
  show "objs (s\<lparr>cells := (cells s)(a \<mapsto> buf')\<rparr>) other = objs s other" by simp
  fix mo q assume "objs s other = Some mo" "data mo = Some q"
  with assms(2-4) have "q \<noteq> a" by (auto simp: separate_def)
  then show "cells (s\<lparr>cells := (cells s)(a \<mapsto> buf')\<rparr>) q = cells s q" by simp
qed

lemma multiply_naive_loops:
  fixes s1 :: "'a::{zero,plus,times} state"
  assumes ret: "objs s1 ret = Some \<lparr>nrow = m, ncol = p, data = Some r\<rparr>"
    and zeros: "cells s1 r = Some (replicate (m * p) 0)"
    and A: "holds s1 mat1 m n bufA" and B: "holds s1 mat2 n p bufB"
    and sepA: "separate s1 ret mat1" and sepB: "separate s1 ret mat2"
    and mp: "m * p < 2 ^ 64"
  shows "for_loop 0 m (\<lambda>i.
           for_loop 0 p (\<lambda>k.
             for_loop 0 n (\<lambda>j s.
               (case Matrix_at s mat1 i j of
                  Inl e \<Rightarrow> Inl e
                | Inr a \<Rightarrow>
                    (case Matrix_at s mat2 j k of
                       Inl e \<Rightarrow> Inl e
                     | Inr b \<Rightarrow>
                         (case Matrix_at s ret i k of
                            Inl e \<Rightarrow> Inl e
                          | Inr c \<Rightarrow> Matrix_put s ret i k (c + a * b))))))) s1 =
         Inr (s1\<lparr>cells := (cells s1)(r \<mapsto> product m n p bufA bufB)\<rparr>)"
proof -
  define t where "t i k j = bufA ! (n * i + j) * bufB ! (p * j + k)" for i k j
  define full where "full idx = accum (t (idx div p) (idx mod p)) n" for idx
  define prog where "prog i k j =
      map (\<lambda>idx. if idx < p * i + k then full idx
                  else if idx = p * i + k then accum (t i k) j else 0) [0..<m * p]" for i k j
  define G where "G buf = s1\<lparr>cells := (cells s1)(r \<mapsto> buf)\<rparr>" for buf
  define body where "body = (\<lambda>(i::nat) (k::nat) (j::nat) (s :: 'a state).
      case Matrix_at s mat1 i j of
        Inl e \<Rightarrow> Inl e
      | Inr a \<Rightarrow>
          (case Matrix_at s mat2 j k of
             Inl e \<Rightarrow> Inl e
           | Inr b \<Rightarrow>
               (case Matrix_at s ret i k of
                  Inl e \<Rightarrow> Inl e
                | Inr c \<Rightarrow> Matrix_put s ret i k (c + a * b))))"
  have len: "length (prog i k j) = m * p" for i k j
    by (simp add: prog_def)
  have GA: "holds (G buf) mat1 m n bufA" for buf
    unfolding G_def using A ret _ sepA by (rule holds_poke_other) simp
  have GB: "holds (G buf) mat2 n p bufB" for buf
    unfolding G_def using B ret _ sepB by (rule holds_poke_other) simp
  have GR: "holds (G buf) ret m p buf" if "length buf = m * p" "0 < m * p" for buf
    using that ret mp by (auto simp: holds_def G_def)
  have GG: "(G buf)\<lparr>cells := (cells (G buf))(r \<mapsto> buf')\<rparr> = G buf'" for buf buf'
    by (simp add: G_def)
  have step: "body i k j (G (prog i k j)) = Inr (G (prog i k (Suc j)))"
    if "i < m" "k < p" "j < n" for i k j
  proof -
    have idx: "p * i + k < m * p"
      using that(1,2) by (rule index_in_range)
    have a: "Matrix_at (G (prog i k j)) mat1 i j = Inr (bufA ! (n * i + j))"
      using GA that(1,3) by (rule holds_at)
    have b: "Matrix_at (G (prog i k j)) mat2 j k = Inr (bufB ! (p * j + k))"
      using GB that(3,2) by (rule holds_at)
    have pos: "0 < m * p"
      using idx by linarith
    have R: "holds (G (prog i k j)) ret m p (prog i k j)"
      using len pos by (rule GR)
    have c: "Matrix_at (G (prog i k j)) ret i k = Inr (accum (t i k) j)"
      using holds_at [OF R that(1,2)] idx by (simp add: prog_def)
    from R that(1,2) obtain q where q: "objs (G (prog i k j)) ret = Some \<lparr>nrow = m, ncol = p, data = Some q\<rparr>"
      and put: "Matrix_put (G (prog i k j)) ret i k (accum (t i k) (Suc j)) =
        Inr ((G (prog i k j))\<lparr>cells := (cells (G (prog i k j)))
               (q \<mapsto> (prog i k j)[p * i + k := accum (t i k) (Suc j)])\<rparr>)"
      by (rule holds_put)
    have "q = r"
      using q ret by (simp add: G_def)
    have upd: "(prog i k j)[p * i + k := accum (t i k) (Suc j)] = prog i k (Suc j)"
      by (rule nth_equalityI) (auto simp: prog_def nth_list_update)
    show ?thesis
      using a b c put \<open>q = r\<close> upd by (simp add: body_def GG t_def)
  qed
  have jloop: "for_loop 0 n (body i k) (G (prog i k 0)) = Inr (G (prog i (Suc k) 0))"
    if "i < m" "k < p" for i k
  proof -
    have "for_loop 0 n (body i k) (G (prog i k 0)) = Inr (G (prog i k n))"
      using for_loop_chain [where i = 0 and n = n and body = "body i k"
          and f = "\<lambda>j. G (prog i k j)"] step that
      by simp
    moreover have "prog i k n = prog i (Suc k) 0"
    proof (rule nth_equalityI)
      show "length (prog i k n) = length (prog i (Suc k) 0)"
        by (simp add: len)
      fix idx assume "idx < length (prog i k n)"
      then have idx: "idx < m * p" by (simp add: len)
      have "full (p * i + k) = accum (t i k) n"
        using that(2) by (simp add: full_def)
      then show "prog i k n ! idx = prog i (Suc k) 0 ! idx"
        using idx by (auto simp: prog_def less_Suc_eq)
    qed
    ultimately show ?thesis by simp
  qed
  have kloop: "for_loop 0 p (\<lambda>k. for_loop 0 n (body i k)) (G (prog i 0 0)) =
      Inr (G (prog (Suc i) 0 0))" if "i < m" for i
  proof -
    have "for_loop 0 p (\<lambda>k. for_loop 0 n (body i k)) (G (prog i 0 0)) = Inr (G (prog i p 0))"
      using for_loop_chain [where i = 0 and n = p and body = "\<lambda>k. for_loop 0 n (body i k)"
          and f = "\<lambda>k. G (prog i k 0)"] jloop that
      by simp
    moreover have "prog i p 0 = prog (Suc i) 0 0"
      by (rule nth_equalityI) (auto simp: prog_def)
    ultimately show ?thesis by simp
  qed
  have iloop: "for_loop 0 m (\<lambda>i. for_loop 0 p (\<lambda>k. for_loop 0 n (body i k))) (G (prog 0 0 0)) =
      Inr (G (prog m 0 0))"
    using for_loop_chain [where i = 0 and n = m
        and body = "\<lambda>i. for_loop 0 p (\<lambda>k. for_loop 0 n (body i k))"
        and f = "\<lambda>i. G (prog i 0 0)"] kloop
    by simp
  have "prog 0 0 0 = replicate (m * p) 0"
    by (rule nth_equalityI) (auto simp: prog_def)
  then have start: "G (prog 0 0 0) = s1"
    using zeros by (simp add: G_def state_cell_triv)
  have t_fun: "t i k = (\<lambda>j. bufA ! (n * i + j) * bufB ! (p * j + k))" for i k
    by (simp add: t_def fun_eq_iff)
  have "prog m 0 0 = product m n p bufA bufB"
    by (rule nth_equalityI) (auto simp: prog_def product_def full_def t_fun mult.commute [of p m])
  then have finish: "G (prog m 0 0) = s1\<lparr>cells := (cells s1)(r \<mapsto> product m n p bufA bufB)\<rparr>"
    by (simp add: G_def)
  show ?thesis
    using iloop start finish by (simp add: body_def)
qed

lemma length_product: "length (product m n p bufA bufB) = m * p"
  by (simp add: product_def)

lemma nth_product:
  assumes "i < m" and "k < p"
  shows "product m n p bufA bufB ! (p * i + k) =
           accum (\<lambda>j. bufA ! (n * i + j) * bufB ! (p * j + k)) n"
proof -
  have "p * i + k < m * p"
    using assms by (rule index_in_range)
  then show ?thesis
    using assms(2) by (simp add: product_def)
qed

lemma multiply_naive_eq:
  fixes s :: "'a::{zero,plus,times} state"
  assumes A: "holds s mat1 m n bufA" and B: "holds s mat2 n p bufB" and wf: "wf_heap s"
    and ne1: "ret \<noteq> mat1" and ne2: "ret \<noteq> mat2" and mp: "m * p < 2 ^ 64"
  shows "multiply_naive s ret mat1 mat2 = Inr (built s ret m p (product m n p bufA bufB))"
proof -
  from A obtain m1 where m1: "objs s mat1 = Some m1" "nrow m1 = m" "ncol m1 = n"
    by (rule holds_objs)
  from B obtain m2 where m2: "objs s mat2 = Some m2" "nrow m2 = n" "ncol m2 = p"
    by (rule holds_objs)
  let ?s1 = "built s ret m p (replicate (m * p) 0)"
  let ?loops = "for_loop 0 m (\<lambda>i.
           for_loop 0 p (\<lambda>k.
             for_loop 0 n (\<lambda>j s.
               (case Matrix_at s mat1 i j of
                  Inl e \<Rightarrow> Inl e
                | Inr a \<Rightarrow>
                    (case Matrix_at s mat2 j k of
                       Inl e \<Rightarrow> Inl e
                     | Inr b \<Rightarrow>
                         (case Matrix_at s ret i k of
                            Inl e \<Rightarrow> Inl e
                          | Inr c \<Rightarrow> Matrix_put s ret i k (c + a * b))))))) ?s1"
  have "?loops = Inr (built s ret m p (product m n p bufA bufB))"
  proof (cases "m * p = 0")
    case True
    then have "m = 0 \<or> p = 0" by simp
    then have "?loops = Inr ?s1"
      by (rule for_loop_nested_empty)
    moreover have "product m n p bufA bufB = replicate (m * p) 0"
      using True by (simp add: product_def)
    ultimately show ?thesis by simp
  next
    case False
    have "?loops = Inr (?s1\<lparr>cells := (cells ?s1)(brk s \<mapsto> product m n p bufA bufB)\<rparr>)"
    proof (rule multiply_naive_loops)
      show "objs ?s1 ret = Some \<lparr>nrow = m, ncol = p, data = Some (brk s)\<rparr>"
        using False by (simp add: built_def)
      show "cells ?s1 (brk s) = Some (replicate (m * p) 0)"
        using False by (simp add: built_def)
      show "holds ?s1 mat1 m n bufA"
        using A wf ne1 by (rule holds_built_other)
      show "holds ?s1 mat2 n p bufB"
        using B wf ne2 by (rule holds_built_other)
      show "separate ?s1 ret mat1"
        using A wf ne1 by (rule separate_built)
      show "separate ?s1 ret mat2"
        using B wf ne2 by (rule separate_built)
      show "m * p < 2 ^ 64"
        by (rule mp)
    qed
    then show ?thesis
      using False by (simp add: built_def)
  qed
  then show ?thesis
    using m1 m2 mp by (simp add: multiply_naive_def Matrix_ctor_eq)
qed

text \<open>
  As long as the number \<open>m * p\<close> of elements of the result is a \<^verbatim>\<open>size_t\<close> value: for
  valid matrices \<open>A\<close> (\<open>m\<close> by \<open>n\<close>) and \<open>B\<close> (\<open>n\<close> by \<open>p\<close>), \<open>multiply_naive\<close>
  returns a valid \<open>m\<close> by \<open>p\<close> matrix whose element \<open>(i, k)\<close> is the accumulation, into
  zero and in the order \<open>j = 0, 1, \<dots>, n - 1\<close>, of the products \<open>A(i, j) * B(j, k)\<close>, and
  leaves \<open>A\<close> and \<open>B\<close> as they are. The elements are of any type with a zero, a sum and
  a product, of which no law is used: the sum of the source's \<^verbatim>\<open>double\<close>s is one.
\<close>

lemma multiply_naive_correct:
  fixes s :: "'a::{zero,plus,times} state"
  assumes "holds s A m n bufA" and "holds s B n p bufB" and "wf_heap s"
    and "ret \<noteq> A" and "ret \<noteq> B" and "m * p < 2 ^ 64"
  shows "\<exists>s' bufC. multiply_naive s ret A B = Inr s' \<and> holds s' ret m p bufC \<and>
           holds s' A m n bufA \<and> holds s' B n p bufB \<and>
           (\<forall>i<m. \<forall>k<p. Matrix_at s' ret i k =
              Inr (accum (\<lambda>j. bufA ! (n * i + j) * bufB ! (p * j + k)) n))"
proof -
  let ?C = "product m n p bufA bufB"
  let ?s' = "built s ret m p ?C"
  have r: "multiply_naive s ret A B = Inr ?s'"
    using assms by (rule multiply_naive_eq)
  have C: "holds ?s' ret m p ?C"
    using assms(6) by (simp add: holds_built length_product)
  have "Matrix_at ?s' ret i k = Inr (accum (\<lambda>j. bufA ! (n * i + j) * bufB ! (p * j + k)) n)"
    if "i < m" "k < p" for i k
    using holds_at [OF C that] that by (simp add: nth_product)
  moreover have "holds ?s' A m n bufA"
    using assms(1,3,4) by (rule holds_built_other)
  moreover have "holds ?s' B n p bufB"
    using assms(2,3,5) by (rule holds_built_other)
  ultimately show ?thesis
    using r C by blast
qed

text \<open>
  The example of the spec: \<open>[[1, 2, 3], [4, 5, 6]]\<close> times \<open>[[7, 8], [9, 10], [11, 12]]\<close> is
  \<open>[[58, 64], [139, 154]]\<close>.
\<close>

lemma multiply_naive_example:
  "to_vector (projr (multiply_naive ex_naive 2 0 1)) 2 = Inr [58, 64, 139, 154]"
  by (simp add: ex_naive_def multiply_naive_def Matrix_ctor_def reset_buffer_def new_zeroed_def
      Matrix_data_default_def for_loop.simps Matrix_at_def Matrix_put_def load_def store_def
      to_vector_def size_t_def)
    (simp add: eval_nat_numeral)

text \<open>
  Claim C2 fails on the code. The result is constructed by \<^verbatim>\<open>Matrix ret(mat1.nrow, mat2.ncol)\<close>,
  and \<^verbatim>\<open>reset_buffer\<close> takes the number of its elements as the \<^verbatim>\<open>size_t\<close> product
  \<^verbatim>\<open>nrow * ncol\<close>, which wraps around. For \<open>A\<close> of \<open>2 ^ 32\<close> rows and no column and \<open>B\<close> of
  no row and \<open>2 ^ 32\<close> columns, both valid and without elements, the product is 0 in
  the code: the matrix returned has \<open>2 ^ 32\<close> rows and \<open>2 ^ 32\<close> columns and no array, so
  its elements, which are empty sums, cannot be read, and \<^verbatim>\<open>to_vector\<close> gives the empty
  sequence.
\<close>

theorem multiply_naive_result_wraps:
  "holds ex_huge 0 (2 ^ 32) 0 [] \<and> holds ex_huge 1 0 (2 ^ 32) [] \<and> wf_heap ex_huge \<and>
   \<not> isl (multiply_naive ex_huge 2 0 1) \<and>
   objs (projr (multiply_naive ex_huge 2 0 1)) 2 =
     Some \<lparr>nrow = 2 ^ 32, ncol = 2 ^ 32, data = None\<rparr> \<and>
   \<not> valid (projr (multiply_naive ex_huge 2 0 1)) 2 \<and>
   Matrix_at (projr (multiply_naive ex_huge 2 0 1)) 2 0 0 = Inl UndefinedBehaviour \<and>
   to_vector (projr (multiply_naive ex_huge 2 0 1)) 2 = Inr []"
proof -
  let ?s1 = "ex_huge\<lparr>objs := (objs ex_huge)(2 \<mapsto> \<lparr>nrow = 2 ^ 32, ncol = 2 ^ 32, data = None\<rparr>)\<rparr>"
  have h: "holds ex_huge 0 (2 ^ 32) 0 []" "holds ex_huge 1 0 (2 ^ 32) []" "wf_heap ex_huge"
    by (simp_all add: ex_huge_def holds_def wf_heap_def)
  have c: "Matrix_ctor ex_huge 2 (2 ^ 32) (2 ^ 32) = Inr ?s1"
    by (simp add: Matrix_ctor_def reset_buffer_def Matrix_data_default_def size_t_def)
  have l: "for_loop 0 (2 ^ 32) (\<lambda>i. for_loop 0 (2 ^ 32) (\<lambda>k. for_loop 0 0 (body i k))) ?s1 = Inr ?s1"
    for body :: "nat \<Rightarrow> nat \<Rightarrow> nat \<Rightarrow> real state \<Rightarrow> real state error + real state"
    by (intro for_loop_skip) simp
  have o: "objs ex_huge 0 = Some \<lparr>nrow = 2 ^ 32, ncol = 0, data = None\<rparr>"
    "objs ex_huge 1 = Some \<lparr>nrow = 0, ncol = 2 ^ 32, data = None\<rparr>"
    by (simp_all add: ex_huge_def)
  have r: "multiply_naive ex_huge 2 0 1 = Inr ?s1"
    using o c l by (simp add: multiply_naive_def)
  have "\<not> valid ?s1 2" "Matrix_at ?s1 2 0 0 = Inl UndefinedBehaviour" "to_vector ?s1 2 = Inr []"
    by (simp_all add: valid_def Matrix_at_def load_def to_vector_def size_t_def)
  with h r show ?thesis
    by simp
qed

section \<open>The tiled multiplication\<close>

text \<open>
  The loops of the tiled multiplication come to an end for every positive tile size
  with which no tile counter can wrap around.
\<close>

lemma multiply_tile_returns:
  assumes "0 < tile_size"
    and "\<And>m1 m2. objs s mat1 = Some m1 \<Longrightarrow> objs s mat2 = Some m2 \<Longrightarrow>
           nrow m1 + tile_size \<le> 2 ^ 64 \<and> ncol m1 + tile_size \<le> 2 ^ 64 \<and>
           ncol m2 + tile_size \<le> 2 ^ 64"
  shows "\<exists>out. multiply_tile s ret mat1 mat2 tile_size = Some out"
proof (cases "objs s mat1")
  case None
  then show ?thesis by (simp add: multiply_tile_def)
next
  case m1: (Some m1)
  show ?thesis
  proof (cases "objs s mat2")
    case None
    then show ?thesis using m1 by (simp add: multiply_tile_def)
  next
    case m2: (Some m2)
    have bd: "nrow m1 + tile_size \<le> 2 ^ 64" "ncol m1 + tile_size \<le> 2 ^ 64"
      "ncol m2 + tile_size \<le> 2 ^ 64"
      using assms(2) [OF m1 m2] by simp_all
    show ?thesis
    proof (cases "ncol m1 = nrow m2")
      case False
      then show ?thesis using m1 m2 by (simp add: multiply_tile_def)
    next
      case True
      define body3 where "body3 = (\<lambda>(tile_i::nat) (tile_k::nat) (tile_j::nat) (s :: 'a state).
          (let tile_i_end = min (size_t (tile_i + tile_size)) (nrow m1);
               tile_k_end = min (size_t (tile_k + tile_size)) (ncol m2);
               tile_j_end = min (size_t (tile_j + tile_size)) (ncol m1)
           in Some (tile_body ret mat1 mat2 tile_i tile_i_end
                      tile_k tile_k_end tile_j tile_j_end s)))"
      have b3: "\<exists>r. body3 ti tk tj u = Some r" for ti tk tj u
        by (simp add: body3_def Let_def)
      have b2: "\<exists>r. for_step 0 (ncol m1) tile_size (body3 ti tk) u = Some r" for ti tk u
        using assms(1) bd(2) b3 by (rule for_step_returns)
      have b1: "\<exists>r. for_step 0 (ncol m2) tile_size (\<lambda>tk. for_step 0 (ncol m1) tile_size (body3 ti tk)) u = Some r"
        for ti u
        using assms(1) bd(3) b2 by (rule for_step_returns)
      show ?thesis
      proof (cases "Matrix_ctor s ret (nrow m1) (ncol m2)")
        case (Inl e)
        then show ?thesis
          using m1 m2 True by (simp add: multiply_tile_def Let_def)
      next
        case (Inr s1)
        have "\<exists>r. for_step 0 (nrow m1) tile_size
            (\<lambda>ti. for_step 0 (ncol m2) tile_size (\<lambda>tk. for_step 0 (ncol m1) tile_size (body3 ti tk)))
            s1 = Some r"
          using assms(1) bd(1) b1 by (rule for_step_returns)
        then show ?thesis
          using m1 m2 True Inr by (simp add: multiply_tile_def body3_def Let_def)
      qed
    qed
  qed
qed

text \<open>A write keeps every matrix valid.\<close>

lemma store_keeps_valid:
  assumes "store s p idx v = Inr s'" and "valid s x"
  shows "valid s' x"
proof -
  from assms(1) obtain a buf where a: "p = Some a" "cells s a = Some buf" "idx < length buf"
    and s': "s' = s\<lparr>cells := (cells s)(a \<mapsto> buf[idx := v])\<rparr>"
    by (auto simp: store_def split: option.splits if_splits)
  from assms(2) obtain m where m: "objs s x = Some m"
    by (auto simp: valid_def split: option.splits)
  show ?thesis
  proof (cases "data m = Some a")
    case True
    with assms(2) m a s' show ?thesis by (simp add: valid_def)
  next
    case False
    with assms(2) m s' show ?thesis
      by (cases "data m") (simp_all add: valid_def)
  qed
qed

lemma Matrix_put_keeps_valid:
  assumes "Matrix_put s this i j v = Inr s'" and "valid s x"
  shows "valid s' x"
  using assms by (auto simp: Matrix_put_def split: option.splits intro: store_keeps_valid)

lemma tile_body_keeps_valid:
  assumes "tile_body ret mat1 mat2 ti tie tk tke tj tje s = Inr s'" and "valid s x"
  shows "valid s' x"
proof -
  define bj where "bj = (\<lambda>(i::nat) (k::nat) (tmp::'a) (j::nat) (s :: 'a state).
      case Matrix_at s mat2 k j of
        Inl e \<Rightarrow> Inl e
      | Inr b \<Rightarrow>
          (case Matrix_at s ret i j of
             Inl e \<Rightarrow> Inl e
           | Inr c \<Rightarrow> Matrix_put s ret i j (c + tmp * b)))"
  define bk where "bk = (\<lambda>(i::nat) (k::nat) (s :: 'a state).
      case Matrix_at s mat1 i k of
        Inl e \<Rightarrow> Inl e
      | Inr tmp \<Rightarrow> for_loop tj tje (bj i k tmp) s)"
  have j: "valid u' x" if "bj i k tmp j u = Inr u'" "valid u x" for i k tmp j u u'
    using that by (auto simp: bj_def split: sum.splits intro: Matrix_put_keeps_valid)
  have k: "valid u' x" if "bk i k u = Inr u'" "valid u x" for i k u u'
  proof -
    from that(1) obtain tmp where "for_loop tj tje (bj i k tmp) u = Inr u'"
      by (auto simp: bk_def split: sum.splits)
    then show ?thesis
      using that(2) j by (rule for_loop_keeps)
  qed
  have i: "valid u' x" if "for_loop tk tke (bk i) u = Inr u'" "valid u x" for i u u'
    using that k by (rule for_loop_keeps)
  have "for_loop ti tie (\<lambda>i. for_loop tk tke (bk i)) s = Inr s'"
    using assms(1) unfolding tile_body_def bk_def bj_def .
  then show ?thesis
    using assms(2) i by (rule for_loop_keeps)
qed

lemma valid_built_other:
  assumes "valid s x" and "wf_heap s" and "this \<noteq> x"
  shows "valid (built s this r c buf) x"
proof -
  from assms(1) obtain m where m: "objs s x = Some m"
    by (auto simp: valid_def split: option.splits)
  have o: "objs (built s this r c buf) x = Some m"
    using m assms(3) by (simp add: built_def)
  show ?thesis
  proof (cases "data m")
    case None
    with assms(1) m o show ?thesis by (simp add: valid_def)
  next
    case (Some a)
    with assms(1) m obtain b where b: "cells s a = Some b" "length b = nrow m * ncol m"
      "nrow m * ncol m \<noteq> 0"
      by (auto simp: valid_def split: option.splits)
    from assms(2) b(1) have "a < brk s" by (rule wf_heap_live)
    then have "cells (built s this r c buf) a = Some b"
      using b(1) by (simp add: built_def)
    with o Some b show ?thesis by (simp add: valid_def)
  qed
qed

lemma multiply_tile_keeps_valid:
  assumes "multiply_tile s ret mat1 mat2 tile_size = Some (Inr s')"
    and "wf_heap s" and "valid s x" and "ret \<noteq> x"
    and "\<And>m1 m2. objs s mat1 = Some m1 \<Longrightarrow> objs s mat2 = Some m2 \<Longrightarrow>
           nrow m1 * ncol m2 < 2 ^ 64"
  shows "valid s' ret \<and> valid s' x"
proof -
  from assms(1) obtain m1 m2 where m: "objs s mat1 = Some m1" "objs s mat2 = Some m2"
    "ncol m1 = nrow m2"
    by (auto simp: multiply_tile_def split: option.splits if_splits)
  have bd: "nrow m1 * ncol m2 < 2 ^ 64"
    using assms(5) m(1,2) by simp
  define body3 where "body3 = (\<lambda>(tile_i::nat) (tile_k::nat) (tile_j::nat) (s :: 'a state).
      (let tile_i_end = min (size_t (tile_i + tile_size)) (nrow m1);
           tile_k_end = min (size_t (tile_k + tile_size)) (ncol m2);
           tile_j_end = min (size_t (tile_j + tile_size)) (ncol m1)
       in Some (tile_body ret mat1 mat2 tile_i tile_i_end
                  tile_k tile_k_end tile_j tile_j_end s)))"
  let ?s1 = "built s ret (nrow m1) (ncol m2) (replicate (nrow m1 * ncol m2) 0)"
  define I where "I u \<longleftrightarrow> valid u ret \<and> valid u x" for u :: "'a state"
  have I1: "I ?s1"
    using assms(2-4) by (simp add: I_def valid_built valid_built_other)
  have b3: "I u'" if "I u" "body3 ti tk tj u = Some (Inr u')" for ti tk tj u u'
    using that by (auto simp: body3_def Let_def I_def intro: tile_body_keeps_valid)
  have b2: "I u'" if "I u" "for_step 0 (ncol m1) tile_size (body3 ti tk) u = Some (Inr u')"
    for ti tk u u'
    using that(2,1) b3 by (rule for_step_keeps)
  have b1: "I u'" if "I u"
    "for_step 0 (ncol m2) tile_size (\<lambda>tk. for_step 0 (ncol m1) tile_size (body3 ti tk)) u = Some (Inr u')"
    for ti u u'
    using that(2,1) b2 by (rule for_step_keeps)
  have "for_step 0 (nrow m1) tile_size
          (\<lambda>ti. for_step 0 (ncol m2) tile_size (\<lambda>tk. for_step 0 (ncol m1) tile_size (body3 ti tk)))
          ?s1 = Some (Inr s')"
    using assms(1) m bd by (simp add: multiply_tile_def Matrix_ctor_eq body3_def Let_def)
  then have "I s'"
    using I1 b1 by (rule for_step_keeps)
  then show ?thesis by (simp add: I_def)
qed

lemma Matrix_put_objs:
  assumes "Matrix_put s this i j v = Inr s'"
  shows "objs s' = objs s"
  using assms by (auto simp: Matrix_put_def store_def split: option.splits if_splits)

lemma separate_objs: "objs s' = objs s \<Longrightarrow> separate s a b \<Longrightarrow> separate s' a b"
  by (simp add: separate_def)

text \<open>
  When the second operand is square, every index of the tiled loops is in range: the
  call returns a matrix, for every positive tile size with which no tile counter can
  wrap around.
\<close>

lemma multiply_tile_square_returns:
  fixes s :: "'a::{zero,plus,times} state"
  assumes A: "holds s mat1 m n bufA" and B: "holds s mat2 n n bufB" and wf: "wf_heap s"
    and ne1: "ret \<noteq> mat1" and ne2: "ret \<noteq> mat2" and ts: "0 < tile_size"
    and mt: "m + tile_size \<le> 2 ^ 64" and nt: "n + tile_size \<le> 2 ^ 64"
  shows "\<exists>s' bufC. multiply_tile s ret mat1 mat2 tile_size = Some (Inr s') \<and>
           holds s' ret m n bufC \<and> holds s' mat1 m n bufA \<and> holds s' mat2 n n bufB"
proof -
  have mn: "m * n < 2 ^ 64"
    using A by (rule holds_size)
  from A obtain m1 where m1: "objs s mat1 = Some m1" "nrow m1 = m" "ncol m1 = n"
    by (rule holds_objs)
  from B obtain m2 where m2: "objs s mat2 = Some m2" "nrow m2 = n" "ncol m2 = n"
    by (rule holds_objs)
  let ?s1 = "built s ret m n (replicate (m * n) 0)"
  define I where "I u \<longleftrightarrow> (\<exists>b. holds u ret m n b) \<and> holds u mat1 m n bufA \<and>
      holds u mat2 n n bufB \<and> separate u ret mat1 \<and> separate u ret mat2" for u :: "'a state"
  define bj where "bj = (\<lambda>(i::nat) (k::nat) (tmp::'a) (j::nat) (s :: 'a state).
      case Matrix_at s mat2 k j of
        Inl e \<Rightarrow> Inl e
      | Inr b \<Rightarrow>
          (case Matrix_at s ret i j of
             Inl e \<Rightarrow> Inl e
           | Inr c \<Rightarrow> Matrix_put s ret i j (c + tmp * b)))"
  define bk where "bk = (\<lambda>(tj::nat) (tje::nat) (i::nat) (k::nat) (s :: 'a state).
      case Matrix_at s mat1 i k of
        Inl e \<Rightarrow> Inl e
      | Inr tmp \<Rightarrow> for_loop tj tje (bj i k tmp) s)"
  have I1: "I ?s1"
    unfolding I_def
    using holds_built [of "replicate (m * n) 0" m n s ret] mn
      holds_built_other [OF A wf ne1] holds_built_other [OF B wf ne2]
      separate_built [OF A wf ne1] separate_built [OF B wf ne2]
    by auto
  have j: "\<exists>u'. bj i k tmp j u = Inr u' \<and> I u'" if "I u" "i < m" "k < n" "j < n"
    for i k tmp j u
  proof -
    from that(1) obtain b where R: "holds u ret m n b" and A': "holds u mat1 m n bufA"
      and B': "holds u mat2 n n bufB" and s1: "separate u ret mat1" and s2: "separate u ret mat2"
      by (auto simp: I_def)
    have rb: "Matrix_at u mat2 k j = Inr (bufB ! (n * k + j))"
      using B' that(3,4) by (rule holds_at)
    have rc: "Matrix_at u ret i j = Inr (b ! (n * i + j))"
      using R that(2,4) by (rule holds_at)
    let ?v = "b ! (n * i + j) + tmp * bufB ! (n * k + j)"
    from put_independent [OF R A' s1 that(2,4), of ?v]
    obtain u' where u': "Matrix_put u ret i j ?v = Inr u'" "holds u' ret m n (b[n * i + j := ?v])"
      "holds u' mat1 m n bufA"
      by blast
    from put_independent [OF R B' s2 that(2,4), of ?v] u'(1)
    have "holds u' mat2 n n bufB"
      by auto
    moreover have o: "objs u' = objs u"
      using u'(1) by (rule Matrix_put_objs)
    moreover have "separate u' ret mat1" "separate u' ret mat2"
      using o s1 s2 by (auto intro: separate_objs)
    ultimately have "I u'"
      using u'(2,3) unfolding I_def by blast
    with rb rc u'(1) show ?thesis
      by (simp add: bj_def)
  qed
  have k: "\<exists>u'. bk tj tje i k u = Inr u' \<and> I u'" if "I u" "i < m" "k < n" "tje \<le> n"
    for tj tje i k u
  proof -
    from that(1) have A': "holds u mat1 m n bufA"
      by (simp add: I_def)
    have ra: "Matrix_at u mat1 i k = Inr (bufA ! (n * i + k))"
      using A' that(2,3) by (rule holds_at)
    have "\<exists>u'. for_loop tj tje (bj i k (bufA ! (n * i + k))) u = Inr u' \<and> I u'"
      using that(1)
    proof (rule for_loop_inv)
      fix j t assume "j < tje" "I t"
      then show "\<exists>t'. bj i k (bufA ! (n * i + k)) j t = Inr t' \<and> I t'"
        using j [of t i k j] that(2-4) by simp
    qed
    with ra show ?thesis
      by (simp add: bk_def)
  qed
  have tb: "\<exists>u'. tile_body ret mat1 mat2 ti tie tk tke tj tje u = Inr u' \<and> I u'"
    if "I u" "tie \<le> m" "tke \<le> n" "tje \<le> n" for ti tie tk tke tj tje u
  proof -
    have "\<exists>u'. for_loop ti tie (\<lambda>i. for_loop tk tke (bk tj tje i)) u = Inr u' \<and> I u'"
      using that(1)
    proof (rule for_loop_inv)
      fix i t assume i: "i < tie" and "I t"
      then show "\<exists>t'. for_loop tk tke (bk tj tje i) t = Inr t' \<and> I t'"
      proof (intro for_loop_inv)
        fix k' t' assume "k' < tke" "I t'"
        then show "\<exists>t''. bk tj tje i k' t' = Inr t'' \<and> I t''"
          using k [of t' i k' tje tj] i that(2-4) by simp
      qed
    qed
    then show ?thesis
      unfolding tile_body_def bk_def bj_def .
  qed
  define body3 where "body3 = (\<lambda>(tile_i::nat) (tile_k::nat) (tile_j::nat) (s :: 'a state).
      (let tile_i_end = min (size_t (tile_i + tile_size)) m;
           tile_k_end = min (size_t (tile_k + tile_size)) n;
           tile_j_end = min (size_t (tile_j + tile_size)) n
       in Some (tile_body ret mat1 mat2 tile_i tile_i_end
                  tile_k tile_k_end tile_j tile_j_end s)))"
  have b3: "\<exists>u'. body3 ti tk tj u = Some (Inr u') \<and> I u'" if "I u" for ti tk tj u
    using tb [OF that, of "min (size_t (ti + tile_size)) m" "min (size_t (tk + tile_size)) n"
        "min (size_t (tj + tile_size)) n" ti tk tj]
    by (simp add: body3_def Let_def)
  have b2: "\<exists>u'. for_step 0 n tile_size (body3 ti tk) u = Some (Inr u') \<and> I u'" if "I u"
    for ti tk u
    using ts nt that by (rule for_step_inv) (rule b3)
  have b1: "\<exists>u'. for_step 0 n tile_size (\<lambda>tk. for_step 0 n tile_size (body3 ti tk)) u =
      Some (Inr u') \<and> I u'" if "I u" for ti u
    using ts nt that by (rule for_step_inv) (rule b2)
  have "\<exists>u'. for_step 0 m tile_size
      (\<lambda>ti. for_step 0 n tile_size (\<lambda>tk. for_step 0 n tile_size (body3 ti tk))) ?s1 =
      Some (Inr u') \<and> I u'"
    using ts mt I1 by (rule for_step_inv) (rule b1)
  then obtain s' where "multiply_tile s ret mat1 mat2 tile_size = Some (Inr s')" and "I s'"
    using m1 m2 mn by (auto simp: multiply_tile_def Matrix_ctor_eq body3_def Let_def)
  then show ?thesis
    by (auto simp: I_def)
qed

text \<open>
  Claim C8 fails on the code, in two ways. For the matrices of the spec's example,
  \<open>[[1, 2, 3], [4, 5, 6]]\<close> and \<open>[[7, 8], [9, 10], [11, 12]]\<close>, and the tile sizes 1 and 16,
  the call does not run to completion: with \<open>i = 1\<close> and \<open>j = 2\<close> it accesses
  \<^verbatim>\<open>ret(1, 2)\<close>, outside the four elements of the result. And the tile counters wrap
  around: for \<open>A\<close> of \<open>2 ^ 63 + 1\<close> rows and no column, \<open>B\<close> of no row and no column,
  both valid and without elements, and the tile size \<open>2 ^ 63\<close>, the counter \<^verbatim>\<open>tile_i\<close>
  takes the values \<open>0, 2 ^ 63, 0, 2 ^ 63, \<dots>\<close>, all below \<open>2 ^ 63 + 1\<close>, and the call
  never returns.
\<close>

theorem multiply_tile_no_return:
  "holds ex_naive 0 2 3 [1, 2, 3, 4, 5, 6] \<and> holds ex_naive 1 3 2 [7, 8, 9, 10, 11, 12] \<and>
   wf_heap ex_naive \<and>
   multiply_tile ex_naive 2 0 1 1 = Some (Inl UndefinedBehaviour) \<and>
   multiply_tile ex_naive 2 0 1 16 = Some (Inl UndefinedBehaviour) \<and>
   holds ex_wrap 0 (2 ^ 63 + 1) 0 [] \<and> holds ex_wrap 1 0 0 [] \<and> wf_heap ex_wrap \<and>
   multiply_tile ex_wrap 2 0 1 (2 ^ 63) = None"
proof -
  have h: "holds ex_naive 0 2 3 [1, 2, 3, 4, 5, 6]" "holds ex_naive 1 3 2 [7, 8, 9, 10, 11, 12]"
    "wf_heap ex_naive"
    by (simp_all add: ex_naive_def holds_def wf_heap_def)
  have u1: "multiply_tile ex_naive 2 0 1 1 = Some (Inl UndefinedBehaviour)"
    by (simp add: ex_naive_def multiply_tile_def Matrix_ctor_def reset_buffer_def new_zeroed_def
        Matrix_data_default_def for_step.simps for_loop.simps tile_body_def Matrix_at_def
        Matrix_put_def load_def store_def size_t_def)
  have u16: "multiply_tile ex_naive 2 0 1 16 = Some (Inl UndefinedBehaviour)"
    by (simp add: ex_naive_def multiply_tile_def Matrix_ctor_def reset_buffer_def new_zeroed_def
        Matrix_data_default_def for_step.simps for_loop.simps tile_body_def Matrix_at_def
        Matrix_put_def load_def store_def size_t_def)
  have w: "holds ex_wrap 0 (2 ^ 63 + 1) 0 []" "holds ex_wrap 1 0 0 []" "wf_heap ex_wrap"
    by (simp_all add: ex_wrap_def holds_def wf_heap_def)
  let ?s1 = "ex_wrap\<lparr>objs := (objs ex_wrap)(2 \<mapsto> \<lparr>nrow = 2 ^ 63 + 1, ncol = 0, data = None\<rparr>)\<rparr>"
  have o: "objs ex_wrap 0 = Some \<lparr>nrow = 2 ^ 63 + 1, ncol = 0, data = None\<rparr>"
    "objs ex_wrap 1 = Some \<lparr>nrow = 0, ncol = 0, data = None\<rparr>"
    by (simp_all add: ex_wrap_def)
  have c: "Matrix_ctor ex_wrap 2 (2 ^ 63 + 1) 0 = Inr ?s1"
    by (simp add: Matrix_ctor_def reset_buffer_def Matrix_data_default_def size_t_def)
  have d: "for_step 0 (2 ^ 63 + 1) (2 ^ 63) (\<lambda>tile_i. for_step 0 0 (2 ^ 63) (body tile_i)) ?s1 = None"
    for body :: "nat \<Rightarrow> nat \<Rightarrow> real state \<Rightarrow> (real state error + real state) option"
  proof (rule for_step_diverges [where C = "{0, 2 ^ 63}"])
    show "0 \<in> {0, 2 ^ 63 :: nat}" by simp
    show "t < 2 ^ 63 + 1 \<and> size_t (t + 2 ^ 63) \<in> {0, 2 ^ 63}" if "t \<in> {0, 2 ^ 63}" for t
      using that by (auto simp: size_t_def)
    show "for_step 0 0 (2 ^ 63) (body t) ?s1 = Some (Inr ?s1)" if "t \<in> {0, 2 ^ 63}" for t
      by (simp add: for_step_done)
  qed
  have n: "multiply_tile ex_wrap 2 0 1 (2 ^ 63) = None"
    using o c d by (simp add: multiply_tile_def Let_def)
  from h u1 u16 w n show ?thesis
    by (intro conjI)
qed

text \<open>
  Claim C1 fails on the code. In \<open>multiply_tile\<close> the counter \<open>k\<close> runs to \<open>mat2.ncol\<close>
  and is used as a column of \<open>mat1\<close> and a row of \<open>mat2\<close>, and \<open>j\<close> runs to \<open>mat1.ncol\<close>
  and is used as a column of \<open>mat2\<close> and of the result. For \<open>A = [[1, 2]]\<close> and
  \<open>B = [[3], [4]]\<close> with tile size 1 the second \<open>j\<close>-tile writes \<open>ret(0, 1)\<close>, outside
  the one element of the result, where \<open>multiply_naive\<close> returns \<open>[[11]]\<close>. When the
  second operand is square the two bounds are the same number, and the two functions
  return the same matrix as long as no tile counter wraps around
  (\<open>multiply_tile_square_eq_naive\<close> below).
\<close>

theorem multiply_tile_nonsquare_undefined:
  "holds ex_tile 0 1 2 [1, 2] \<and> holds ex_tile 1 2 1 [3, 4] \<and> wf_heap ex_tile \<and>
   multiply_tile ex_tile 2 0 1 1 = Some (Inl UndefinedBehaviour) \<and>
   to_vector (projr (multiply_naive ex_tile 2 0 1)) 2 = Inr [11]"
proof -
  have "holds ex_tile 0 1 2 [1, 2]" "holds ex_tile 1 2 1 [3, 4]" "wf_heap ex_tile"
    by (simp_all add: ex_tile_def holds_def wf_heap_def)
  moreover have "multiply_tile ex_tile 2 0 1 1 = Some (Inl UndefinedBehaviour)"
    by (simp add: ex_tile_def multiply_tile_def Matrix_ctor_def reset_buffer_def new_zeroed_def
        Matrix_data_default_def for_step.simps for_loop.simps tile_body_def Matrix_at_def
        Matrix_put_def load_def store_def size_t_def)
  moreover have "to_vector (projr (multiply_naive ex_tile 2 0 1)) 2 = Inr [11]"
    by (simp add: ex_tile_def multiply_naive_def Matrix_ctor_def reset_buffer_def new_zeroed_def
        Matrix_data_default_def for_loop.simps Matrix_at_def
        Matrix_put_def load_def store_def to_vector_def size_t_def)
  ultimately show ?thesis
    by (intro conjI)
qed

section \<open>The invariant of a matrix\<close>

lemma valid_cong:
  assumes "objs s' a = objs s b" and "cells s' = cells s"
  shows "valid s' a = valid s b"
  using assms by (simp add: valid_def split: option.splits)

lemma valid_unfold:
  assumes "valid u x"
  shows "\<exists>m. objs u x = Some m \<and> (data m = None \<longleftrightarrow> nrow m * ncol m = 0) \<and>
           (\<forall>a. data m = Some a \<longrightarrow>
              (\<exists>buf. cells u a = Some buf \<and> length buf = nrow m * ncol m))"
  using assms by (auto simp: valid_def split: option.splits)

text \<open>
  A valid matrix (\<open>valid\<close>) is a live object that has no array exactly when
  \<open>nrow * ncol = 0\<close>, and whose array otherwise holds exactly \<open>nrow * ncol\<close>
  elements: the first conjunct spells this out. As long as the products \<open>rows * cols\<close>
  of the constructed matrices and \<open>r * c'\<close> of the results of the multiplications are
  \<^verbatim>\<open>size_t\<close> values, every operation leaves the matrices it works on valid, starting
  from valid matrices \<open>X\<close> and \<open>Y\<close> with arrays of their own and a place \<open>Z\<close> for a new
  object: the two constructors, copy construction and assignment, move construction
  and assignment, assignment to itself, setting an element in range, and the results
  of \<open>multiply_naive\<close> and of \<open>multiply_tile\<close> whenever it returns one.
\<close>

lemma operations_keep_valid:
  fixes s :: "'a::{zero,plus,times} state"
  assumes wf: "wf_heap s" and X: "holds s X r c bufX" and Y: "holds s Y r' c' bufY"
    and xy: "X \<noteq> Y" and sep: "separate s X Y" and zx: "Z \<noteq> X" and zy: "Z \<noteq> Y"
    and rc: "rows * cols < 2 ^ 64" and res: "r * c' < 2 ^ 64"
  shows "(\<forall>u x. valid (u :: 'a state) x \<longrightarrow>
            (\<exists>m. objs u x = Some m \<and> (data m = None \<longleftrightarrow> nrow m * ncol m = 0) \<and>
               (\<forall>a. data m = Some a \<longrightarrow>
                  (\<exists>buf. cells u a = Some buf \<and> length buf = nrow m * ncol m)))) \<and>
         (\<exists>s'. Matrix_ctor s Z rows cols = Inr s' \<and> valid s' Z \<and> valid s' X \<and> valid s' Y) \<and>
         (length vec = rows * cols \<longrightarrow>
            (\<exists>s'. Matrix_ctor_vec s Z rows cols vec = Inr s' \<and>
                  valid s' Z \<and> valid s' X \<and> valid s' Y)) \<and>
         (\<exists>s'. Matrix_copy_ctor s Z X = Inr s' \<and> valid s' Z \<and> valid s' X) \<and>
         (\<exists>s'. Matrix_copy_assign s Y X = Inr s' \<and> valid s' Y \<and> valid s' X) \<and>
         Matrix_copy_assign s X X = Inr s \<and>
         (\<exists>s'. Matrix_move_ctor s Z X = Inr s' \<and> valid s' Z \<and> valid s' X) \<and>
         (\<exists>s'. Matrix_move_assign s Y X = Inr s' \<and> valid s' Y \<and> valid s' X) \<and>
         Matrix_move_assign s X X = Inr s \<and>
         (\<forall>i<r. \<forall>j<c. \<forall>v. \<exists>s'. Matrix_put s X i j v = Inr s' \<and> valid s' X \<and> valid s' Y) \<and>
         (c = r' \<longrightarrow>
            (\<exists>s'. multiply_naive s Z X Y = Inr s' \<and> valid s' Z \<and> valid s' X \<and> valid s' Y)) \<and>
         (\<forall>s'. multiply_tile s Z X Y tile_size = Some (Inr s') \<longrightarrow>
            valid s' Z \<and> valid s' X \<and> valid s' Y)"
proof -
  have vX: "valid s X" and vY: "valid s Y"
    using X Y by (auto intro: holds_valid)
  from X obtain mx where mx: "objs s X = Some mx" "nrow mx = r" by (rule holds_objs)
  from Y obtain my where my: "objs s Y = Some my" "ncol my = c'" by (rule holds_objs)
  have sepYX: "separate s Y X"
    using sep by (rule separate_sym)
  have unfold: "\<forall>u x. valid (u :: 'a state) x \<longrightarrow>
            (\<exists>m. objs u x = Some m \<and> (data m = None \<longleftrightarrow> nrow m * ncol m = 0) \<and>
               (\<forall>a. data m = Some a \<longrightarrow>
                  (\<exists>buf. cells u a = Some buf \<and> length buf = nrow m * ncol m)))"
    using valid_unfold by blast
  have ctor: "\<exists>s'. Matrix_ctor s Z rows cols = Inr s' \<and> valid s' Z \<and> valid s' X \<and> valid s' Y"
    using wf vX vY zx zy rc by (simp add: Matrix_ctor_eq valid_built valid_built_other)
  have ctor_vec: "length vec = rows * cols \<longrightarrow>
            (\<exists>s'. Matrix_ctor_vec s Z rows cols vec = Inr s' \<and>
                  valid s' Z \<and> valid s' X \<and> valid s' Y)"
    using wf vX vY zx zy rc by (simp add: Matrix_ctor_vec_ok valid_built valid_built_other)
  have copy_ctor: "\<exists>s'. Matrix_copy_ctor s Z X = Inr s' \<and> valid s' Z \<and> valid s' X"
    using Matrix_copy_ctor_holds [OF X wf zx] by (blast intro: holds_valid)
  have copy_assign: "\<exists>s'. Matrix_copy_assign s Y X = Inr s' \<and> valid s' Y \<and> valid s' X"
    using Matrix_copy_assign_holds [OF X Y sepYX wf xy [symmetric]] by (blast intro: holds_valid)
  have self: "Matrix_copy_assign s X X = Inr s" "Matrix_move_assign s X X = Inr s"
    by (simp_all add: Matrix_copy_assign_def Matrix_move_assign_def)
  have move_ctor: "\<exists>s'. Matrix_move_ctor s Z X = Inr s' \<and> valid s' Z \<and> valid s' X"
  proof -
    let ?s' = "s\<lparr>objs := (objs s)(Z \<mapsto> mx, X \<mapsto> \<lparr>nrow = 0, ncol = 0, data = None\<rparr>)\<rparr>"
    have "Matrix_move_ctor s Z X = Inr ?s'"
      using mx(1) zx by (rule Matrix_move_ctor_eq)
    moreover have "valid ?s' Z = valid s X"
      using mx(1) zx by (intro valid_cong) simp_all
    moreover have "valid ?s' X"
      by (simp add: valid_def)
    ultimately show ?thesis
      using vX by simp
  qed
  have move_assign: "\<exists>s'. Matrix_move_assign s Y X = Inr s' \<and> valid s' Y \<and> valid s' X"
  proof -
    let ?s' = "s\<lparr>objs := (objs s)(Y \<mapsto> mx, X \<mapsto> my)\<rparr>"
    have "Matrix_move_assign s Y X = Inr ?s'"
      using my(1) mx(1) xy [symmetric] by (rule Matrix_move_assign_eq)
    moreover have "valid ?s' Y = valid s X"
      using mx(1) xy by (intro valid_cong) simp_all
    moreover have "valid ?s' X = valid s Y"
      using my(1) by (intro valid_cong) simp_all
    ultimately show ?thesis
      using vX vY by simp
  qed
  have put: "\<forall>i<r. \<forall>j<c. \<forall>v. \<exists>s'. Matrix_put s X i j v = Inr s' \<and> valid s' X \<and> valid s' Y"
    using put_independent [OF X Y sep] by (blast intro: holds_valid)
  have naive: "c = r' \<longrightarrow>
            (\<exists>s'. multiply_naive s Z X Y = Inr s' \<and> valid s' Z \<and> valid s' X \<and> valid s' Y)"
  proof
    assume "c = r'"
    with Y have Y': "holds s Y c c' bufY" by simp
    have "multiply_naive s Z X Y = Inr (built s Z r c' (product r c c' bufX bufY))"
      using X Y' wf zx zy res by (rule multiply_naive_eq)
    then show "\<exists>s'. multiply_naive s Z X Y = Inr s' \<and> valid s' Z \<and> valid s' X \<and> valid s' Y"
      using wf vX vY zx zy by (simp add: valid_built length_product valid_built_other)
  qed
  have fits: "nrow m1 * ncol m2 < 2 ^ 64" if "objs s X = Some m1" "objs s Y = Some m2" for m1 m2
    using that mx my res by simp
  have tile: "\<forall>s'. multiply_tile s Z X Y tile_size = Some (Inr s') \<longrightarrow>
            valid s' Z \<and> valid s' X \<and> valid s' Y"
    using multiply_tile_keeps_valid [of s Z X Y tile_size _ X]
      multiply_tile_keeps_valid [of s Z X Y tile_size _ Y] wf vX vY zx zy fits
    by blast
  from unfold ctor ctor_vec copy_ctor copy_assign self move_ctor move_assign put naive tile
  show ?thesis
    by (intro conjI)
qed

text \<open>
  Claim C9 fails on the code. \<^verbatim>\<open>reset_buffer\<close> takes the number of elements as the
  \<^verbatim>\<open>size_t\<close> product \<^verbatim>\<open>nrow * ncol\<close>, which wraps around. \<^verbatim>\<open>Matrix(4294967296, 4294967296)\<close>
  constructs an object of \<open>2 ^ 32\<close> rows and \<open>2 ^ 32\<close> columns, whose product \<open>2 ^ 64\<close>
  is 0 in the code: the object has no array. It is not a valid matrix, since
  \<open>rows * cols\<close> is not 0, and \<^verbatim>\<open>to_vector\<close> gives no element where \<open>rows * cols\<close> are
  due.
\<close>

theorem ctor_breaks_invariant:
  "\<not> isl (Matrix_ctor (init_state :: real state) 0 (2 ^ 32) (2 ^ 32)) \<and>
   objs (projr (Matrix_ctor (init_state :: real state) 0 (2 ^ 32) (2 ^ 32))) 0 =
     Some \<lparr>nrow = 2 ^ 32, ncol = 2 ^ 32, data = None\<rparr> \<and>
   \<not> valid (projr (Matrix_ctor (init_state :: real state) 0 (2 ^ 32) (2 ^ 32))) 0 \<and>
   to_vector (projr (Matrix_ctor (init_state :: real state) 0 (2 ^ 32) (2 ^ 32))) 0 = Inr []"
  by (simp add: Matrix_ctor_def reset_buffer_def Matrix_data_default_def init_state_def
      size_t_def valid_def to_vector_def)

section \<open>The tiled multiplication with a square second operand\<close>

text \<open>A stepping loop whose state at the counter \<open>t\<close> is \<open>f t\<close>.\<close>

lemma for_step_chain:
  assumes "0 < step" and "n + step \<le> 2 ^ 64"
    and "\<And>t. t < n \<Longrightarrow> body t (f t) = Some (Inr (f (t + step)))"
  shows "\<exists>t'. n \<le> t' \<and> for_step t n step body (f t) = Some (Inr (f t'))"
  using assms
proof (induction "n - t" arbitrary: t rule: less_induct)
  case less
  show ?case
  proof (cases "t < n")
    case False
    then show ?thesis
      by (intro exI [of _ t]) (simp add: for_step_done)
  next
    case True
    have w: "size_t (t + step) = t + step"
      using True less.prems(2) by (rule for_step_next)
    have "n - (t + step) < n - t"
      using True less.prems(1) by simp
    then obtain t' where "n \<le> t'" "for_step (t + step) n step body (f (t + step)) = Some (Inr (f t'))"
      using less.hyps [of "t + step"] less.prems by blast
    then show ?thesis
      using True less.prems(3) [OF True] by (intro exI [of _ t']) (simp add: for_step_step w)
  qed
qed

lemma partial_product_cong:
  assumes "\<And>x y. x < m \<Longrightarrow> y < n \<Longrightarrow> c x y = c' x y"
  shows "partial_product m n bufA bufB c = partial_product m n bufA bufB c'"
proof (rule nth_equalityI)
  show "length (partial_product m n bufA bufB c) = length (partial_product m n bufA bufB c')"
    by (simp add: partial_product_def)
  fix idx assume "idx < length (partial_product m n bufA bufB c)"
  then have idx: "idx < m * n" by (simp add: partial_product_def)
  then have n: "0 < n" by (cases n) simp_all
  have "idx div n < m"
    using idx n by (simp add: less_mult_imp_div_less)
  moreover have "idx mod n < n"
    using n by simp
  ultimately have "c (idx div n) (idx mod n) = c' (idx div n) (idx mod n)"
    by (rule assms)
  then show "partial_product m n bufA bufB c ! idx = partial_product m n bufA bufB c' ! idx"
    using idx by (simp add: partial_product_def)
qed

lemma partial_product_nth:
  assumes "x < m" and "y < n"
  shows "partial_product m n bufA bufB c ! (n * x + y) =
           accum (\<lambda>k. bufA ! (n * x + k) * bufB ! (n * k + y)) (c x y)"
proof -
  have "n * x + y < m * n"
    using assms by (rule index_in_range)
  then show ?thesis
    using assms(2) by (simp add: partial_product_def)
qed

lemma partial_product_update:
  assumes "x < m" and "y < n"
  shows "(partial_product m n bufA bufB c)
           [n * x + y := accum (\<lambda>k. bufA ! (n * x + k) * bufB ! (n * k + y)) (Suc (c x y))] =
         partial_product m n bufA bufB (\<lambda>x' y'. if x' = x \<and> y' = y then Suc (c x y) else c x' y')"
proof (rule nth_equalityI)
  show "length ((partial_product m n bufA bufB c)
           [n * x + y := accum (\<lambda>k. bufA ! (n * x + k) * bufB ! (n * k + y)) (Suc (c x y))]) =
        length (partial_product m n bufA bufB
           (\<lambda>x' y'. if x' = x \<and> y' = y then Suc (c x y) else c x' y'))"
    by (simp add: partial_product_def)
  fix idx
  assume "idx < length ((partial_product m n bufA bufB c)
           [n * x + y := accum (\<lambda>k. bufA ! (n * x + k) * bufB ! (n * k + y)) (Suc (c x y))])"
  then have idx: "idx < m * n" by (simp add: partial_product_def)
  show "(partial_product m n bufA bufB c)
           [n * x + y := accum (\<lambda>k. bufA ! (n * x + k) * bufB ! (n * k + y)) (Suc (c x y))] ! idx =
        partial_product m n bufA bufB
           (\<lambda>x' y'. if x' = x \<and> y' = y then Suc (c x y) else c x' y') ! idx"
  proof (cases "idx = n * x + y")
    case True
    then show ?thesis
      using idx assms(2) by (simp add: partial_product_def)
  next
    case False
    have "\<not> (idx div n = x \<and> idx mod n = y)"
    proof
      assume "idx div n = x \<and> idx mod n = y"
      then have "n * x + y = n * (idx div n) + idx mod n" by simp
      then show False using False by simp
    qed
    then show ?thesis
      using idx False by (auto simp: partial_product_def)
  qed
qed

lemma partial_product_zero: "partial_product m n bufA bufB (\<lambda>x y. 0) = replicate (m * n) 0"
  by (rule nth_equalityI) (simp_all add: partial_product_def)

lemma partial_product_full: "partial_product m n bufA bufB (\<lambda>x y. n) = product m n n bufA bufB"
  by (simp add: partial_product_def product_def)

lemma multiply_tile_loops:
  fixes s1 :: "'a::{zero,plus,times} state"
  assumes ret: "objs s1 ret = Some \<lparr>nrow = m, ncol = n, data = Some r\<rparr>"
    and zeros: "cells s1 r = Some (replicate (m * n) 0)"
    and A: "holds s1 mat1 m n bufA" and B: "holds s1 mat2 n n bufB"
    and sepA: "separate s1 ret mat1" and sepB: "separate s1 ret mat2"
    and ts: "0 < tile_size"
    and mt: "m + tile_size \<le> 2 ^ 64" and nt: "n + tile_size \<le> 2 ^ 64"
  shows "for_step 0 m tile_size (\<lambda>tile_i.
           for_step 0 n tile_size (\<lambda>tile_k.
             for_step 0 n tile_size (\<lambda>tile_j s.
               (let tile_i_end = min (size_t (tile_i + tile_size)) m;
                    tile_k_end = min (size_t (tile_k + tile_size)) n;
                    tile_j_end = min (size_t (tile_j + tile_size)) n
                in Some (tile_body ret mat1 mat2 tile_i tile_i_end
                           tile_k tile_k_end tile_j tile_j_end s))))) s1 =
         Some (Inr (s1\<lparr>cells := (cells s1)(r \<mapsto> product m n n bufA bufB)\<rparr>))"
proof -
  define G where "G c = s1\<lparr>cells := (cells s1)(r \<mapsto> partial_product m n bufA bufB c)\<rparr>"
    for c :: "nat \<Rightarrow> nat \<Rightarrow> nat"
  define bj where "bj = (\<lambda>(i::nat) (k::nat) (tmp::'a) (j::nat) (s :: 'a state).
      case Matrix_at s mat2 k j of
        Inl e \<Rightarrow> Inl e
      | Inr b \<Rightarrow>
          (case Matrix_at s ret i j of
             Inl e \<Rightarrow> Inl e
           | Inr c \<Rightarrow> Matrix_put s ret i j (c + tmp * b)))"
  define bk where "bk = (\<lambda>(tj::nat) (tje::nat) (i::nat) (k::nat) (s :: 'a state).
      case Matrix_at s mat1 i k of
        Inl e \<Rightarrow> Inl e
      | Inr tmp \<Rightarrow> for_loop tj tje (bj i k tmp) s)"
  define body3 where "body3 = (\<lambda>(tile_i::nat) (tile_k::nat) (tile_j::nat) (s :: 'a state).
      (let tile_i_end = min (size_t (tile_i + tile_size)) m;
           tile_k_end = min (size_t (tile_k + tile_size)) n;
           tile_j_end = min (size_t (tile_j + tile_size)) n
       in Some (tile_body ret mat1 mat2 tile_i tile_i_end
                  tile_k tile_k_end tile_j tile_j_end s)))"
  have mn: "m * n < 2 ^ 64"
    using A by (rule holds_size)
  have wm: "size_t (x + tile_size) = x + tile_size" if "x < m" for x
    using that mt by (rule for_step_next)
  have wn: "size_t (x + tile_size) = x + tile_size" if "x < n" for x
    using that nt by (rule for_step_next)
  have Gcong: "G c = G c'" if "\<And>x y. x < m \<Longrightarrow> y < n \<Longrightarrow> c x y = c' x y" for c c'
    using partial_product_cong [of m n c c' bufA bufB] that by (simp add: G_def)
  have GA: "holds (G c) mat1 m n bufA" for c
    unfolding G_def using A ret _ sepA by (rule holds_poke_other) simp
  have GB: "holds (G c) mat2 n n bufB" for c
    unfolding G_def using B ret _ sepB by (rule holds_poke_other) simp
  have GR: "holds (G c) ret m n (partial_product m n bufA bufB c)" if "0 < m * n" for c
    using that ret mn by (auto simp: holds_def G_def partial_product_def)
  have step: "bj i k (bufA ! (n * i + k)) j (G c) =
      Inr (G (\<lambda>x y. if x = i \<and> y = j then Suc k else c x y))"
    if "i < m" "k < n" "j < n" "c i j = k" for i k j c
  proof -
    have pos: "0 < m * n"
      using that(1,3) by (cases m; cases n) simp_all
    have b: "Matrix_at (G c) mat2 k j = Inr (bufB ! (n * k + j))"
      using GB that(2,3) by (rule holds_at)
    have v: "Matrix_at (G c) ret i j = Inr (accum (\<lambda>k. bufA ! (n * i + k) * bufB ! (n * k + j)) k)"
      using holds_at [OF GR [OF pos] that(1,3), of c] that
      by (simp add: partial_product_nth)
    let ?v = "accum (\<lambda>k. bufA ! (n * i + k) * bufB ! (n * k + j)) (Suc (c i j))"
    from GR [OF pos] that(1,3) obtain q where
      q: "objs (G c) ret = Some \<lparr>nrow = m, ncol = n, data = Some q\<rparr>"
      and put: "Matrix_put (G c) ret i j ?v =
        Inr ((G c)\<lparr>cells := (cells (G c))(q \<mapsto> (partial_product m n bufA bufB c)[n * i + j := ?v])\<rparr>)"
      by (rule holds_put)
    have "q = r"
      using q ret by (simp add: G_def)
    have over: "(G c)\<lparr>cells := (cells (G c))(r \<mapsto> X)\<rparr> = s1\<lparr>cells := (cells s1)(r \<mapsto> X)\<rparr>" for X
      by (simp add: G_def)
    have upd: "(partial_product m n bufA bufB c)[n * i + j := ?v] =
        partial_product m n bufA bufB (\<lambda>x y. if x = i \<and> y = j then Suc (c i j) else c x y)"
      using that(1,3) by (rule partial_product_update)
    have "(G c)\<lparr>cells := (cells (G c))(r \<mapsto> (partial_product m n bufA bufB c)[n * i + j := ?v])\<rparr> =
        G (\<lambda>x y. if x = i \<and> y = j then Suc (c i j) else c x y)"
      unfolding over upd by (simp add: G_def)
    with put \<open>q = r\<close> have "Matrix_put (G c) ret i j ?v =
        Inr (G (\<lambda>x y. if x = i \<and> y = j then Suc (c i j) else c x y))"
      by simp
    then have "Matrix_put (G c) ret i j
        (accum (\<lambda>k. bufA ! (n * i + k) * bufB ! (n * k + j)) (Suc k)) =
        Inr (G (\<lambda>x y. if x = i \<and> y = j then Suc k else c x y))"
      unfolding that(4) .
    with b v show ?thesis
      by (simp add: bj_def)
  qed
  have jl: "for_loop tj tje (bj i k (bufA ! (n * i + k))) (G c0) =
      Inr (G (\<lambda>x y. if x = i \<and> tj \<le> y \<and> y < tje then Suc k else c0 x y))"
    if "i < m" "k < n" "tj \<le> tje" "tje \<le> n" "\<And>y. tj \<le> y \<Longrightarrow> y < tje \<Longrightarrow> c0 i y = k"
    for i k tj tje c0
  proof -
    define f where "f j' = G (\<lambda>x y. if x = i \<and> tj \<le> y \<and> y < j' then Suc k else c0 x y)" for j'
    have "for_loop tj tje (bj i k (bufA ! (n * i + k))) (f tj) = Inr (f tje)"
      using that(3)
    proof (rule for_loop_chain)
      fix j' assume j': "tj \<le> j'" "j' < tje"
      have "bj i k (bufA ! (n * i + k)) j' (f j') =
          Inr (G (\<lambda>x y. if x = i \<and> y = j' then Suc k
                         else if x = i \<and> tj \<le> y \<and> y < j' then Suc k else c0 x y))"
        unfolding f_def using that(1,2,4,5) j' by (intro step) simp_all
      also have "G (\<lambda>x y. if x = i \<and> y = j' then Suc k
                         else if x = i \<and> tj \<le> y \<and> y < j' then Suc k else c0 x y) = f (Suc j')"
        unfolding f_def using j'(1) by (intro Gcong) auto
      finally show "bj i k (bufA ! (n * i + k)) j' (f j') = Inr (f (Suc j'))" .
    qed
    moreover have "f tj = G c0"
      unfolding f_def by (intro Gcong) auto
    ultimately show ?thesis
      by (simp add: f_def)
  qed
  have kl: "for_loop tk tke (bk tj tje i) (G c0) =
      Inr (G (\<lambda>x y. if x = i \<and> tj \<le> y \<and> y < tje then tke else c0 x y))"
    if "i < m" "tk \<le> tke" "tke \<le> n" "tj \<le> tje" "tje \<le> n"
      "\<And>y. tj \<le> y \<Longrightarrow> y < tje \<Longrightarrow> c0 i y = tk"
    for i tk tke tj tje c0
  proof -
    define f where "f k' = G (\<lambda>x y. if x = i \<and> tj \<le> y \<and> y < tje then k' else c0 x y)" for k'
    have "for_loop tk tke (bk tj tje i) (f tk) = Inr (f tke)"
      using that(2)
    proof (rule for_loop_chain)
      fix k' assume k': "tk \<le> k'" "k' < tke"
      then have kn: "k' < n" using that(3) by simp
      have a: "Matrix_at (f k') mat1 i k' = Inr (bufA ! (n * i + k'))"
        unfolding f_def using GA that(1) kn by (rule holds_at)
      have "for_loop tj tje (bj i k' (bufA ! (n * i + k'))) (f k') =
          Inr (G (\<lambda>x y. if x = i \<and> tj \<le> y \<and> y < tje then Suc k'
                         else if x = i \<and> tj \<le> y \<and> y < tje then k' else c0 x y))"
        unfolding f_def using that(1) kn that(4,5) by (intro jl) simp_all
      also have "G (\<lambda>x y. if x = i \<and> tj \<le> y \<and> y < tje then Suc k'
                         else if x = i \<and> tj \<le> y \<and> y < tje then k' else c0 x y) = f (Suc k')"
        unfolding f_def by (intro Gcong) auto
      finally show "bk tj tje i k' (f k') = Inr (f (Suc k'))"
        using a by (simp add: bk_def)
    qed
    moreover have "f tk = G c0"
      unfolding f_def using that(6) by (intro Gcong) auto
    ultimately show ?thesis
      by (simp add: f_def)
  qed
  have il: "tile_body ret mat1 mat2 ti tie tk tke tj tje (G c0) =
      Inr (G (\<lambda>x y. if ti \<le> x \<and> x < tie \<and> tj \<le> y \<and> y < tje then tke else c0 x y))"
    if "ti \<le> tie" "tie \<le> m" "tk \<le> tke" "tke \<le> n" "tj \<le> tje" "tje \<le> n"
      "\<And>x y. ti \<le> x \<Longrightarrow> x < tie \<Longrightarrow> tj \<le> y \<Longrightarrow> y < tje \<Longrightarrow> c0 x y = tk"
    for ti tie tk tke tj tje c0
  proof -
    define f where
      "f i' = G (\<lambda>x y. if ti \<le> x \<and> x < i' \<and> tj \<le> y \<and> y < tje then tke else c0 x y)" for i'
    have "for_loop ti tie (\<lambda>i. for_loop tk tke (bk tj tje i)) (f ti) = Inr (f tie)"
      using that(1)
    proof (rule for_loop_chain)
      fix i' assume i': "ti \<le> i'" "i' < tie"
      then have im: "i' < m" using that(2) by simp
      have "for_loop tk tke (bk tj tje i') (f i') =
          Inr (G (\<lambda>x y. if x = i' \<and> tj \<le> y \<and> y < tje then tke
                         else if ti \<le> x \<and> x < i' \<and> tj \<le> y \<and> y < tje then tke else c0 x y))"
        unfolding f_def using im that(3-6) that(7) [of i'] i' by (intro kl) simp_all
      also have "G (\<lambda>x y. if x = i' \<and> tj \<le> y \<and> y < tje then tke
                         else if ti \<le> x \<and> x < i' \<and> tj \<le> y \<and> y < tje then tke else c0 x y) =
          f (Suc i')"
        unfolding f_def using i'(1) by (intro Gcong) auto
      finally show "for_loop tk tke (bk tj tje i') (f i') = Inr (f (Suc i'))" .
    qed
    moreover have "f ti = G c0"
      unfolding f_def by (intro Gcong) auto
    ultimately have "for_loop ti tie (\<lambda>i. for_loop tk tke (bk tj tje i)) (G c0) = Inr (f tie)"
      by simp
    then show ?thesis
      unfolding tile_body_def bk_def bj_def f_def .
  qed
  have tjl: "for_step 0 n tile_size (body3 ti tk) (G c0) =
      Some (Inr (G (\<lambda>x y. if ti \<le> x \<and> x < min (ti + tile_size) m then min (tk + tile_size) n
                           else c0 x y)))"
    if "ti < m" "tk < n"
      "\<And>x y. ti \<le> x \<Longrightarrow> x < min (ti + tile_size) m \<Longrightarrow> y < n \<Longrightarrow> c0 x y = tk"
    for ti tk c0
  proof -
    let ?tie = "min (ti + tile_size) m" and ?tke = "min (tk + tile_size) n"
    define f where "f tj = G (\<lambda>x y. if ti \<le> x \<and> x < ?tie \<and> y < tj then ?tke else c0 x y)" for tj
    have "\<exists>t'. n \<le> t' \<and> for_step 0 n tile_size (body3 ti tk) (f 0) = Some (Inr (f t'))"
      using ts nt
    proof (rule for_step_chain)
      fix tj assume tj: "tj < n"
      let ?tje = "min (tj + tile_size) n"
      have "tile_body ret mat1 mat2 ti ?tie tk ?tke tj ?tje (f tj) =
          Inr (G (\<lambda>x y. if ti \<le> x \<and> x < ?tie \<and> tj \<le> y \<and> y < ?tje then ?tke
                         else if ti \<le> x \<and> x < ?tie \<and> y < tj then ?tke else c0 x y))"
        unfolding f_def using that tj by (intro il) simp_all
      also have "G (\<lambda>x y. if ti \<le> x \<and> x < ?tie \<and> tj \<le> y \<and> y < ?tje then ?tke
                         else if ti \<le> x \<and> x < ?tie \<and> y < tj then ?tke else c0 x y) =
          f (tj + tile_size)"
        unfolding f_def by (intro Gcong) auto
      finally show "body3 ti tk tj (f tj) = Some (Inr (f (tj + tile_size)))"
        using that(1,2) tj by (simp add: body3_def Let_def wm wn)
    qed
    then obtain t' where t': "n \<le> t'"
      "for_step 0 n tile_size (body3 ti tk) (f 0) = Some (Inr (f t'))"
      by blast
    have "f 0 = G c0"
      unfolding f_def by (intro Gcong) auto
    moreover have "f t' = G (\<lambda>x y. if ti \<le> x \<and> x < ?tie then ?tke else c0 x y)"
      unfolding f_def using t'(1) by (intro Gcong) auto
    ultimately show ?thesis
      using t'(2) by simp
  qed
  have tkl: "for_step 0 n tile_size (\<lambda>tk. for_step 0 n tile_size (body3 ti tk)) (G c0) =
      Some (Inr (G (\<lambda>x y. if ti \<le> x \<and> x < min (ti + tile_size) m then n else c0 x y)))"
    if "ti < m" "\<And>x y. ti \<le> x \<Longrightarrow> x < min (ti + tile_size) m \<Longrightarrow> y < n \<Longrightarrow> c0 x y = 0"
    for ti c0
  proof -
    let ?tie = "min (ti + tile_size) m"
    define f where "f tk = G (\<lambda>x y. if ti \<le> x \<and> x < ?tie then min tk n else c0 x y)" for tk
    have "\<exists>t'. n \<le> t' \<and>
        for_step 0 n tile_size (\<lambda>tk. for_step 0 n tile_size (body3 ti tk)) (f 0) = Some (Inr (f t'))"
      using ts nt
    proof (rule for_step_chain)
      fix tk assume tk: "tk < n"
      have "for_step 0 n tile_size (body3 ti tk) (f tk) =
          Some (Inr (G (\<lambda>x y. if ti \<le> x \<and> x < ?tie then min (tk + tile_size) n
                               else if ti \<le> x \<and> x < ?tie then min tk n else c0 x y)))"
        unfolding f_def using that(1) tk by (intro tjl) simp_all
      also have "G (\<lambda>x y. if ti \<le> x \<and> x < ?tie then min (tk + tile_size) n
                               else if ti \<le> x \<and> x < ?tie then min tk n else c0 x y) =
          f (tk + tile_size)"
        unfolding f_def by (intro Gcong) auto
      finally show "for_step 0 n tile_size (body3 ti tk) (f tk) = Some (Inr (f (tk + tile_size)))" .
    qed
    then obtain t' where t': "n \<le> t'"
      "for_step 0 n tile_size (\<lambda>tk. for_step 0 n tile_size (body3 ti tk)) (f 0) = Some (Inr (f t'))"
      by blast
    have "f 0 = G c0"
      unfolding f_def using that(2) by (intro Gcong) auto
    moreover have "f t' = G (\<lambda>x y. if ti \<le> x \<and> x < ?tie then n else c0 x y)"
      unfolding f_def using t'(1) by (intro Gcong) auto
    ultimately show ?thesis
      using t'(2) by simp
  qed
  define f where "f ti = G (\<lambda>x y. if x < ti then n else 0)" for ti
  have "\<exists>t'. m \<le> t' \<and>
      for_step 0 m tile_size
        (\<lambda>ti. for_step 0 n tile_size (\<lambda>tk. for_step 0 n tile_size (body3 ti tk))) (f 0) =
      Some (Inr (f t'))"
    using ts mt
  proof (rule for_step_chain)
    fix ti assume ti: "ti < m"
    have "for_step 0 n tile_size (\<lambda>tk. for_step 0 n tile_size (body3 ti tk)) (f ti) =
        Some (Inr (G (\<lambda>x y. if ti \<le> x \<and> x < min (ti + tile_size) m then n
                             else if x < ti then n else 0)))"
      unfolding f_def using ti by (intro tkl) simp_all
    also have "G (\<lambda>x y. if ti \<le> x \<and> x < min (ti + tile_size) m then n
                             else if x < ti then n else 0) = f (ti + tile_size)"
      unfolding f_def by (intro Gcong) auto
    finally show "for_step 0 n tile_size (\<lambda>tk. for_step 0 n tile_size (body3 ti tk)) (f ti) =
        Some (Inr (f (ti + tile_size)))" .
  qed
  then obtain t' where t': "m \<le> t'"
    "for_step 0 m tile_size
        (\<lambda>ti. for_step 0 n tile_size (\<lambda>tk. for_step 0 n tile_size (body3 ti tk))) (f 0) =
      Some (Inr (f t'))"
    by blast
  have "f 0 = s1"
    using zeros by (simp add: f_def G_def partial_product_zero state_cell_triv)
  moreover have "f t' = G (\<lambda>x y. n)"
    unfolding f_def using t'(1) by (intro Gcong) auto
  then have "f t' = s1\<lparr>cells := (cells s1)(r \<mapsto> product m n n bufA bufB)\<rparr>"
    by (simp add: G_def partial_product_full)
  ultimately show ?thesis
    using t'(2) by (simp add: body3_def)
qed

text \<open>
  When the second operand is square, \<open>multiply_tile\<close> returns, for every element type
  and every positive tile size with which no tile counter can wrap around, the state
  that \<open>multiply_naive\<close> returns: each element of the result accumulates its products
  in the order \<open>k = 0, 1, \<dots>\<close> in both.
\<close>

lemma multiply_tile_eq:
  fixes s :: "'a::{zero,plus,times} state"
  assumes A: "holds s mat1 m n bufA" and B: "holds s mat2 n n bufB" and wf: "wf_heap s"
    and ne1: "ret \<noteq> mat1" and ne2: "ret \<noteq> mat2" and ts: "0 < tile_size"
    and mt: "m + tile_size \<le> 2 ^ 64" and nt: "n + tile_size \<le> 2 ^ 64"
  shows "multiply_tile s ret mat1 mat2 tile_size =
           Some (Inr (built s ret m n (product m n n bufA bufB)))"
proof -
  from A obtain m1 where m1: "objs s mat1 = Some m1" "nrow m1 = m" "ncol m1 = n"
    by (rule holds_objs)
  from B obtain m2 where m2: "objs s mat2 = Some m2" "nrow m2 = n" "ncol m2 = n"
    by (rule holds_objs)
  have mn: "m * n < 2 ^ 64"
    using A by (rule holds_size)
  let ?s1 = "built s ret m n (replicate (m * n) 0)"
  let ?body3 = "\<lambda>tile_i tile_k tile_j s.
      (let tile_i_end = min (size_t (tile_i + tile_size)) m;
           tile_k_end = min (size_t (tile_k + tile_size)) n;
           tile_j_end = min (size_t (tile_j + tile_size)) n
       in Some (tile_body ret mat1 mat2 tile_i tile_i_end
                  tile_k tile_k_end tile_j tile_j_end s))"
  let ?loops = "for_step 0 m tile_size (\<lambda>tile_i.
      for_step 0 n tile_size (\<lambda>tile_k. for_step 0 n tile_size (?body3 tile_i tile_k))) ?s1"
  have "?loops = Some (Inr (built s ret m n (product m n n bufA bufB)))"
  proof (cases "m * n = 0")
    case True
    have "\<exists>s'. ?loops = Some (Inr s') \<and> s' = ?s1"
    proof (cases "m = 0")
      case True
      then show ?thesis by (simp add: for_step_done)
    next
      case False
      with \<open>m * n = 0\<close> have "n = 0" by simp
      show ?thesis
        using ts mt by (rule for_step_inv) (simp_all add: \<open>n = 0\<close> for_step_done)
    qed
    moreover have "product m n n bufA bufB = replicate (m * n) 0"
      using True by (simp add: product_def)
    ultimately show ?thesis by simp
  next
    case False
    have "?loops = Some (Inr (?s1\<lparr>cells := (cells ?s1)(brk s \<mapsto> product m n n bufA bufB)\<rparr>))"
    proof (rule multiply_tile_loops)
      show "objs ?s1 ret = Some \<lparr>nrow = m, ncol = n, data = Some (brk s)\<rparr>"
        using False by (simp add: built_def)
      show "cells ?s1 (brk s) = Some (replicate (m * n) 0)"
        using False by (simp add: built_def)
      show "holds ?s1 mat1 m n bufA"
        using A wf ne1 by (rule holds_built_other)
      show "holds ?s1 mat2 n n bufB"
        using B wf ne2 by (rule holds_built_other)
      show "separate ?s1 ret mat1"
        using A wf ne1 by (rule separate_built)
      show "separate ?s1 ret mat2"
        using B wf ne2 by (rule separate_built)
      show "0 < tile_size" by (rule ts)
      show "m + tile_size \<le> 2 ^ 64" by (rule mt)
      show "n + tile_size \<le> 2 ^ 64" by (rule nt)
    qed
    then show ?thesis
      using False by (simp add: built_def)
  qed
  then show ?thesis
    using m1 m2 mn by (simp add: multiply_tile_def Matrix_ctor_eq Let_def)
qed

lemma multiply_tile_square_eq_naive:
  fixes s :: "'a::{zero,plus,times} state"
  assumes "holds s mat1 m n bufA" and "holds s mat2 n n bufB" and "wf_heap s"
    and "ret \<noteq> mat1" and "ret \<noteq> mat2" and "0 < tile_size"
    and "m + tile_size \<le> 2 ^ 64" and "n + tile_size \<le> 2 ^ 64"
  shows "multiply_tile s ret mat1 mat2 tile_size = Some (multiply_naive s ret mat1 mat2)"
  using multiply_tile_eq [OF assms] multiply_naive_eq [OF assms(1-5) holds_size [OF assms(1)]]
  by simp

end
